theory Spec2Isabelle
  imports Main "HOL-Library.Word"
begin

section \<open>Values and external collaborators\<close>

text \<open>
  The values that travel through the library are JavaScript values of JSON shape.  The
  code never computes with them: it reads them from a payload, hands them to the
  serializer and stores them back, so only their identity matters.  \<open>JUndefined\<close> is what
  reading a missing property yields.
\<close>

datatype json =
    JUndefined
  | JNull
  | JBool bool
  | JNum int
  | JStr string
  | JArr "json list"
  | JObj "(string \<times> json) list"

type_synonym buffer = "8 word list"

text \<open>
  hash.ts: \<open>SDHashAlg\<close> is a union of seventeen string literals; \<open>alg_name\<close> gives the
  literal back.
\<close>

datatype SDHashAlg =
    SHA_256 | SHA_256_128 | SHA_256_120 | SHA_256_96 | SHA_256_64 | SHA_256_32
  | SHA_384 | SHA_512
  | SHA3_224 | SHA3_256 | SHA3_384 | SHA3_512
  | BLAKE2S_256 | BLAKE2B_256 | BLAKE2B_512
  | K12_256 | K12_512

fun alg_name :: "SDHashAlg \<Rightarrow> string" where
  "alg_name SHA_256 = ''sha-256''"
| "alg_name SHA_256_128 = ''sha-256-128''"
| "alg_name SHA_256_120 = ''sha-256-120''"
| "alg_name SHA_256_96 = ''sha-256-96''"
| "alg_name SHA_256_64 = ''sha-256-64''"
| "alg_name SHA_256_32 = ''sha-256-32''"
| "alg_name SHA_384 = ''sha-384''"
| "alg_name SHA_512 = ''sha-512''"
| "alg_name SHA3_224 = ''sha3-224''"
| "alg_name SHA3_256 = ''sha3-256''"
| "alg_name SHA3_384 = ''sha3-384''"
| "alg_name SHA3_512 = ''sha3-512''"
| "alg_name BLAKE2S_256 = ''blake2s-256''"
| "alg_name BLAKE2B_256 = ''blake2b-256''"
| "alg_name BLAKE2B_512 = ''blake2b-512''"
| "alg_name K12_256 = ''k12-256''"
| "alg_name K12_512 = ''k12-512''"

text \<open>
  Every \<open>throw\<close> of the sources is a value of \<open>error\<close>: the two "inconsistent hash
  algorithms" errors (fillSDOptions, SDObject.flatMap), the "unsupported hash algorithm"
  error of translateHashAlg, the error of requireSecondPreimageResistant, the TypeError
  of calling \<open>reduce\<close> on something that is no array, and whatever \<open>crypto.createHash\<close>
  throws for a name it does not know.
\<close>

datatype error =
    InconsistentHashAlg
  | UnsupportedHashAlg SDHashAlg
  | ProhibitedHashAlg
  | TypeError
  | CryptoError string

text \<open>
  The library calls four things it does not define: the \<open>base64url\<close> package (applied to
  a Buffer, and \<open>base64url.encode\<close> applied to a text), \<open>crypto.createHash\<close> (which throws
  for an unknown digest name and otherwise gives an object whose \<open>update(data).digest()\<close>
  is the digest), \<open>crypto.randomBytes\<close> (an effect: it is a function of an explicit
  random state \<open>'s\<close> and returns the new state), and \<open>JSON.stringify\<close>.  They are the
  fields of an environment every operation takes as its first argument.
\<close>

record 's env =
  base64url :: "buffer \<Rightarrow> string"
  base64url_encode :: "string \<Rightarrow> string"
  createHash :: "string \<Rightarrow> error + (string \<Rightarrow> buffer)"
  randomBytes :: "nat \<Rightarrow> 's \<Rightarrow> buffer \<times> 's"
  JSON_stringify :: "json \<Rightarrow> string"

section \<open>hash.ts\<close>

definition SDDefaultHashAlg :: SDHashAlg where
  "SDDefaultHashAlg = SHA_256"

text \<open>translateHashAlg: the \<open>switch\<close>, case by case, in the order of the source.\<close>

fun translateHashAlg :: "SDHashAlg \<Rightarrow> error + string" where
  "translateHashAlg SHA_256 = Inr ''SHA256''"
| "translateHashAlg SHA_256_128 = Inr ''SHA256-128''"
| "translateHashAlg SHA_256_120 = Inr ''SHA256-120''"
| "translateHashAlg SHA_256_96 = Inr ''SHA256-96''"
| "translateHashAlg SHA_256_64 = Inr ''SHA256-64''"
| "translateHashAlg SHA_256_32 = Inr ''SHA256-32''"
| "translateHashAlg SHA_384 = Inr ''SHA3-384''"
| "translateHashAlg SHA_512 = Inr ''SHA512''"
| "translateHashAlg SHA3_224 = Inr ''SHA3-224''"
| "translateHashAlg SHA3_256 = Inr ''SHA3-256''"
| "translateHashAlg SHA3_384 = Inr ''SHA384''"
| "translateHashAlg SHA3_512 = Inr ''SHA3-512''"
| "translateHashAlg BLAKE2S_256 = Inr ''BLAKE2s256''"
| "translateHashAlg BLAKE2B_256 = Inr ''BLAKE2b256''"
| "translateHashAlg BLAKE2B_512 = Inr ''BLAKE2b512''"
| "translateHashAlg K12_256 = Inl (UnsupportedHashAlg K12_256)"
| "translateHashAlg K12_512 = Inl (UnsupportedHashAlg K12_512)"

text \<open>
  hash: \<open>createHash(translateHashAlg(hashAlg))\<close>, then \<open>update(data).digest()\<close>.  The
  argument is evaluated first, so its error wins.
\<close>

definition hash :: "'s env \<Rightarrow> string \<Rightarrow> SDHashAlg \<Rightarrow> error + buffer" where
  "hash env data hashAlg =
     (case translateHashAlg hashAlg of
        Inl e \<Rightarrow> Inl e
      | Inr name \<Rightarrow>
          (case createHash env name of
             Inl e \<Rightarrow> Inl e
           | Inr h \<Rightarrow> Inr (h data)))"

text \<open>
  What hash writes to the console: its body has no console statement and calls only
  translateHashAlg and createHash.
\<close>

definition hash_console :: "'s env \<Rightarrow> string \<Rightarrow> SDHashAlg \<Rightarrow> string list" where
  "hash_console env data hashAlg = []"

definition prohibitedHashAlgorithms :: "string list" where
  "prohibitedHashAlgorithms = [''MD2'', ''MD4'', ''MD5'', ''SHA-1'']"

definition weakHashAlgorithms :: "string list" where
  "weakHashAlgorithms = [''sha-256-32'', ''sha-256-64'']"

text \<open>
  requireSecondPreimageResistant takes any string.  It throws, or returns after writing
  zero or one line with \<open>console.warn\<close>: the result is the error or the lines written.
\<close>

definition requireSecondPreimageResistant :: "string \<Rightarrow> error + string list" where
  "requireSecondPreimageResistant hashAlg =
     (if List.member prohibitedHashAlgorithms hashAlg then Inl ProhibitedHashAlg
      else if List.member weakHashAlgorithms hashAlg
      then Inr [''A weak hash algorithm is used for disclosure digests.'']
      else Inr [])"

section \<open>salt.ts\<close>

text \<open>
  inspectSizeOfSalt returns its argument and warns below 16 bytes; createSalt calls it and
  then \<open>randomBytes\<close>.  Both are given with the console lines they write.
\<close>

definition inspectSizeOfSalt :: "nat \<Rightarrow> string list \<times> nat" where
  "inspectSizeOfSalt bytesSalt =
     (if bytesSalt < 16
      then ([''The RECOMMENDED minimum length of the randomly-generated portion of the salt is 128 bits.''],
            bytesSalt)
      else ([], bytesSalt))"

definition salt_createSalt :: "'s env \<Rightarrow> nat \<Rightarrow> 's \<Rightarrow> string list \<times> (buffer \<times> 's)" where
  "salt_createSalt env bytesOfSalt s =
     (fst (inspectSizeOfSalt bytesOfSalt), randomBytes env bytesOfSalt s)"

definition SDDefaultBytesOfSalt :: nat where
  "SDDefaultBytesOfSalt = 32"

definition defaultCreateSalt :: "'s env \<Rightarrow> 's \<Rightarrow> buffer \<times> 's" where
  "defaultCreateSalt env s = snd (salt_createSalt env SDDefaultBytesOfSalt s)"

section \<open>selective-disclosure.ts\<close>

text \<open>
  A payload has type \<open>SDProps & T\<close>: the two reserved keys, both optional, and the
  properties of the caller's object.  A reserved key that is missing and one that holds
  \<open>undefined\<close> read the same everywhere in the sources (\<open>??\<close>, \<open>!== undefined\<close>, a plain
  property read), so both are \<open>None\<close>.  The other properties are kept in insertion order,
  one entry per name; an entry under a reserved name is never read.
  \<open>_sd\<close> is declared \<open>string[]\<close>; its elements are kept as JSON values because
  SDObject.array may be pointed at it.
\<close>

record payload =
  sd_alg :: "SDHashAlg option"
  sd :: "json list option"
  claims :: "(string \<times> json) list"

text \<open>
  DisclosureOpions (the name is the source's) has three optional fields;
  \<open>Required<DisclosureOpions>\<close> has the same three, all present.  The salt function is
  an effect, \<open>() => Buffer\<close>: like \<open>randomBytes\<close> it takes the random state and returns
  the new one.  The salt function and the serializer are the caller's and are taken to
  return, as their types say.
\<close>

record 's DisclosureOpions =
  hashAlg :: "SDHashAlg option"
  createSalt :: "('s \<Rightarrow> buffer \<times> 's) option"
  stringify :: "(json \<Rightarrow> string) option"

record 's RequiredDisclosureOpions =
  req_hashAlg :: SDHashAlg
  req_createSalt :: "'s \<Rightarrow> buffer \<times> 's"
  req_stringify :: "json \<Rightarrow> string"

text \<open>\<open>a ?? b\<close> on an optional value.\<close>

fun nullish :: "'a option \<Rightarrow> 'a \<Rightarrow> 'a" where
  "nullish (Some a) b = a"
| "nullish None b = b"

definition fillSDOptions ::
  "'s env \<Rightarrow> payload \<Rightarrow> 's DisclosureOpions \<Rightarrow> error + 's RequiredDisclosureOpions" where
  "fillSDOptions env sdProps options =
     (let payloadHashAlg = sd_alg sdProps;
          optionHashAlg = hashAlg options;
          hashAlg' = nullish payloadHashAlg (nullish optionHashAlg SDDefaultHashAlg)
      in if payloadHashAlg \<noteq> None \<and> optionHashAlg \<noteq> None \<and> payloadHashAlg \<noteq> optionHashAlg
         then Inl InconsistentHashAlg
         else Inr \<lparr> req_hashAlg = hashAlg',
                    req_createSalt = nullish (createSalt options) (defaultCreateSalt env),
                    req_stringify = nullish (stringify options) (JSON_stringify env) \<rparr>)"

section \<open>SDArray.ts\<close>

text \<open>arrayElementDigest: the digest marker \<open>{ "...": digest }\<close>.\<close>

definition arrayElementDigest :: "string \<Rightarrow> json" where
  "arrayElementDigest digest = JObj [(''...'', JStr digest)]"

definition disclosureForArrayElement ::
  "'s env \<Rightarrow> string \<Rightarrow> json \<Rightarrow> (json \<Rightarrow> string) \<Rightarrow> string" where
  "disclosureForArrayElement env salt element stringify' =
     (let array = JArr [JStr salt, element];
          jsonEncodedArray = stringify' array
      in base64url_encode env jsonEncodedArray)"

record SDArrayResult =
  res_sdArray :: "json list"
  res_disclosures :: "string list"

text \<open>
  \<open>Array.prototype.reduce\<close> with an initial value, on a dense array: the callback sees
  the accumulator, the element and its index, from left to right.  Here the callback may
  throw and may draw random bytes, so it returns an error or the new accumulator with the
  new random state, and the first error ends the loop.
\<close>

fun reduce_from ::
  "('acc \<Rightarrow> 'a \<Rightarrow> nat \<Rightarrow> 's \<Rightarrow> error + 'acc \<times> 's) \<Rightarrow> 'a list \<Rightarrow> nat \<Rightarrow> 'acc \<Rightarrow> 's
     \<Rightarrow> error + 'acc \<times> 's" where
  "reduce_from f [] index acc s = Inr (acc, s)"
| "reduce_from f (e # es) index acc s =
     (case f acc e index s of
        Inl err \<Rightarrow> Inl err
      | Inr (acc', s') \<Rightarrow> reduce_from f es (Suc index) acc' s')"

text \<open>
  The callback of sdArray.  \<open>indices\<close> is a \<open>number[]\<close>; \<open>indices.includes(index)\<close>
  compares with an array index, which only an integer can equal, so the indices are
  integers (negative ones included).
\<close>

definition sdArray_callback ::
  "'s env \<Rightarrow> int list \<Rightarrow> 's RequiredDisclosureOpions \<Rightarrow> SDArrayResult \<Rightarrow> json \<Rightarrow> nat \<Rightarrow> 's
     \<Rightarrow> error + SDArrayResult \<times> 's" where
  "sdArray_callback env indices disclosureOptions acc e index s =
     (if List.member indices (int index)
      then (let (saltBytes, s') = req_createSalt disclosureOptions s;
                salt = base64url env saltBytes;
                disclosure = disclosureForArrayElement env salt e (req_stringify disclosureOptions)
            in case hash env disclosure (req_hashAlg disclosureOptions) of
                 Inl err \<Rightarrow> Inl err
               | Inr digest \<Rightarrow>
                   Inr (\<lparr> res_sdArray = res_sdArray acc @ [arrayElementDigest (base64url env digest)],
                           res_disclosures = res_disclosures acc @ [disclosure] \<rparr>, s'))
      else Inr (\<lparr> res_sdArray = res_sdArray acc @ [e],
                   res_disclosures = res_disclosures acc \<rparr>, s))"

definition sdArray ::
  "'s env \<Rightarrow> json list \<Rightarrow> int list \<Rightarrow> 's RequiredDisclosureOpions \<Rightarrow> 's
     \<Rightarrow> error + SDArrayResult \<times> 's" where
  "sdArray env array indices disclosureOptions s =
     reduce_from (sdArray_callback env indices disclosureOptions) array 0
       \<lparr> res_sdArray = [], res_disclosures = [] \<rparr> s"

section \<open>SDObject.ts\<close>

record SDObject =
  sdObject :: payload
  disclosures :: "string list"

text \<open>
  Reading, deleting and writing a property of a payload by its name.  The reserved names
  go to the reserved fields; a missing property reads as \<open>undefined\<close>; a new property is
  added after the others and an old one keeps its place.
\<close>

definition payload_get :: "payload \<Rightarrow> string \<Rightarrow> json" where
  "payload_get p k =
     (if k = ''_sd_alg'' then (case sd_alg p of None \<Rightarrow> JUndefined | Some a \<Rightarrow> JStr (alg_name a))
      else if k = ''_sd'' then (case sd p of None \<Rightarrow> JUndefined | Some ds \<Rightarrow> JArr ds)
      else (case map_of (claims p) k of None \<Rightarrow> JUndefined | Some v \<Rightarrow> v))"

definition payload_delete :: "payload \<Rightarrow> string \<Rightarrow> payload" where
  "payload_delete p k =
     (if k = ''_sd_alg'' then p\<lparr>sd_alg := None\<rparr>
      else if k = ''_sd'' then p\<lparr>sd := None\<rparr>
      else p\<lparr>claims := filter (\<lambda>kv. fst kv \<noteq> k) (claims p)\<rparr>)"

fun assoc_set :: "string \<Rightarrow> json \<Rightarrow> (string \<times> json) list \<Rightarrow> (string \<times> json) list" where
  "assoc_set k v [] = [(k, v)]"
| "assoc_set k v (kv # kvs) = (if fst kv = k then (k, v) # kvs else kv # assoc_set k v kvs)"

text \<open>
  Writing an array under a name, as the spread \<open>{ ...payload, [claimName]: newArray }\<close>
  does.  The only caller is SDObject.array, which overwrites \<open>_sd_alg\<close> right after, so
  under that name nothing is written here.
\<close>

definition payload_set_array :: "payload \<Rightarrow> string \<Rightarrow> json list \<Rightarrow> payload" where
  "payload_set_array p k xs =
     (if k = ''_sd'' then p\<lparr>sd := Some xs\<rparr>
      else if k = ''_sd_alg'' then p
      else p\<lparr>claims := assoc_set k (JArr xs) (claims p)\<rparr>)"

definition disclosureForObjectProps ::
  "'s env \<Rightarrow> string \<Rightarrow> string \<Rightarrow> json \<Rightarrow> (json \<Rightarrow> string) \<Rightarrow> string" where
  "disclosureForObjectProps env salt claimName claimValue stringify' =
     (let array = JArr [JStr salt, JStr claimName, claimValue];
          jsonEncodedArray = stringify' array
      in base64url_encode env jsonEncodedArray)"

text \<open>SDObject.pure: \<open>{ ...object, _sd: [] }\<close> and no disclosures.\<close>

definition SDObject_pure :: "payload \<Rightarrow> SDObject" where
  "SDObject_pure object = \<lparr> sdObject = object\<lparr>sd := Some []\<rparr>, disclosures = [] \<rparr>"

text \<open>
  SDObject.flatMap.  The function \<open>f\<close> is the caller's: it may throw and may draw random
  bytes (it usually redacts), so it returns an error or its value with the new random
  state.
\<close>

definition SDObject_flatMap ::
  "SDObject \<Rightarrow> (payload \<Rightarrow> 's \<Rightarrow> error + SDObject \<times> 's) \<Rightarrow> 's \<Rightarrow> error + SDObject \<times> 's" where
  "SDObject_flatMap self f s =
     (let pSdAlg = sd_alg (sdObject self); pSd = sd (sdObject self)
      in case f (sdObject self) s of
           Inl e \<Rightarrow> Inl e
         | Inr (newSdObj, s') \<Rightarrow>
             (let nSdAlg = sd_alg (sdObject newSdObj); nSd = sd (sdObject newSdObj)
              in if nullish pSdAlg SDDefaultHashAlg \<noteq> nullish nSdAlg SDDefaultHashAlg
                 then Inl InconsistentHashAlg
                 else Inr (\<lparr> sdObject = (sdObject newSdObj)\<lparr>sd := Some (nullish pSd [] @ nullish nSd [])\<rparr>,
                              disclosures = disclosures self @ disclosures newSdObj \<rparr>, s')))"

text \<open>
  SDObject.prop.  The first \<open>map\<close> over the claim names draws a salt and builds the
  disclosure of each name, reading the value from the payload as it was; the second
  \<open>map\<close> hashes each disclosure and pairs the digest with it.
\<close>

fun prop_disclosures ::
  "'s env \<Rightarrow> payload \<Rightarrow> 's RequiredDisclosureOpions \<Rightarrow> string list \<Rightarrow> 's \<Rightarrow> string list \<times> 's" where
  "prop_disclosures env payload' opts [] s = ([], s)"
| "prop_disclosures env payload' opts (claimName # rest) s =
     (let (saltBytes, s1) = req_createSalt opts s;
          salt = base64url env saltBytes;
          claimValue = payload_get payload' claimName;
          disclosure = disclosureForObjectProps env salt claimName claimValue (req_stringify opts);
          (others, s2) = prop_disclosures env payload' opts rest s1
      in (disclosure # others, s2))"

fun prop_digests :: "'s env \<Rightarrow> SDHashAlg \<Rightarrow> string list \<Rightarrow> error + (string \<times> string) list" where
  "prop_digests env hashAlg' [] = Inr []"
| "prop_digests env hashAlg' (disclosure # rest) =
     (case hash env disclosure hashAlg' of
        Inl e \<Rightarrow> Inl e
      | Inr digest \<Rightarrow>
          (case prop_digests env hashAlg' rest of
             Inl e \<Rightarrow> Inl e
           | Inr others \<Rightarrow> Inr ((base64url env digest, disclosure) # others)))"

definition SDObject_prop ::
  "'s env \<Rightarrow> SDObject \<Rightarrow> string list \<Rightarrow> 's DisclosureOpions \<Rightarrow> 's \<Rightarrow> error + SDObject \<times> 's" where
  "SDObject_prop env self claimNames options s =
     (let payload' = sdObject self
      in case fillSDOptions env (sdObject self) options of
           Inl e \<Rightarrow> Inl e
         | Inr opts \<Rightarrow>
             (let (staged, s') = prop_disclosures env payload' opts claimNames s
              in case prop_digests env (req_hashAlg opts) staged of
                   Inl e \<Rightarrow> Inl e
                 | Inr sdClaims \<Rightarrow>
                     (let disclosureDigests = map fst sdClaims;
                          newPayload = payload'\<lparr>sd := Some (nullish (sd payload') [] @ map JStr disclosureDigests),
                                                sd_alg := Some (req_hashAlg opts)\<rparr>;
                          newPayload' = fold (\<lambda>disclosureClaim p. payload_delete p disclosureClaim) claimNames newPayload;
                          newDisclosures = disclosures self @ map snd sdClaims
                      in Inr (\<lparr> sdObject = newPayload', disclosures = newDisclosures \<rparr>, s'))))"

text \<open>
  SDObject.array.  The options are resolved first; \<open>sdArray\<close> then calls \<open>reduce\<close> on the
  value of the claim, which is a TypeError unless that value is an array.  The new payload
  is \<open>{ ...payload, [claimName]: newArray, _sd_alg: options.hashAlg }\<close>: the algorithm
  written is the one of the caller's \<open>options\<close>.
\<close>

definition SDObject_array ::
  "'s env \<Rightarrow> SDObject \<Rightarrow> string \<Rightarrow> int list \<Rightarrow> 's DisclosureOpions \<Rightarrow> 's \<Rightarrow> error + SDObject \<times> 's" where
  "SDObject_array env self claimName indices options s =
     (let payload' = sdObject self
      in case fillSDOptions env payload' options of
           Inl e \<Rightarrow> Inl e
         | Inr filledSDOptions \<Rightarrow>
             (case payload_get payload' claimName of
                JArr claimValueArray \<Rightarrow>
                  (case sdArray env claimValueArray indices filledSDOptions s of
                     Inl e \<Rightarrow> Inl e
                   | Inr (r, s') \<Rightarrow>
                       (let newPayload = (payload_set_array payload' claimName (res_sdArray r))
                                           \<lparr>sd_alg := hashAlg options\<rparr>
                        in Inr (\<lparr> sdObject = newPayload,
                                   disclosures = disclosures self @ res_disclosures r \<rparr>, s')))
              | _ \<Rightarrow> Inl TypeError))"

section \<open>JSON.stringify and JSON.parse\<close>

text \<open>
  The default serializer is the language's \<open>JSON.stringify\<close>, and the text of a decoded
  disclosure is read back with \<open>JSON.parse\<close>.  The operations of the library never look
  into the text, so the environment leaves the serializer open; what the two functions
  do on the values of type \<open>json\<close> is written out here, after ECMA-262 (JSON.stringify
  without replacer and indentation, JSON.parse without reviver).  A string is the
  sequence of the bytes of its UTF-8 form, which both functions pass through unchanged
  above the ASCII range; a number is an integer, which Number::toString writes in
  decimal.
\<close>

fun join_commas :: "string list \<Rightarrow> string" where
  "join_commas [] = []"
| "join_commas [t] = t"
| "join_commas (t # u # us) = t @ CHR '','' # join_commas (u # us)"

definition is_digit :: "char \<Rightarrow> bool" where
  "is_digit c = (48 \<le> (of_char c :: nat) \<and> (of_char c :: nat) \<le> 57)"


definition digit_value :: "char \<Rightarrow> nat" where
  "digit_value c = of_char c - 48"









text \<open>
  JSON.parse either gives a value or throws a SyntaxError.  Two kinds of text are outside
  what is written out here and are answered \<open>Unmodelled\<close>: a number with a fraction or
  an exponent, and a \<open>\u\<close> escape above the ASCII range.  The parser descends with a
  counter that every call decreases; \<open>OutOfFuel\<close> is the answer when it reaches zero.
\<close>

datatype parse_error = SyntaxError | Unmodelled | OutOfFuel

definition is_ws :: "char \<Rightarrow> bool" where
  "is_ws c = (c = CHR 0x20 \<or> c = CHR 0x09 \<or> c = CHR 0x0A \<or> c = CHR 0x0D)"

definition skip_ws :: "string \<Rightarrow> string" where
  "skip_ws t = dropWhile is_ws t"

text \<open>
  The characters of a string up to its closing quotation mark, with the escapes resolved;
  an unescaped control character is a SyntaxError.
\<close>

definition hex_value :: "char \<Rightarrow> nat option" where
  "hex_value c =
     (let n = (of_char c :: nat)
      in if 48 \<le> n \<and> n \<le> 57 then Some (n - 48)
         else if 97 \<le> n \<and> n \<le> 102 then Some (n - 87)
         else if 65 \<le> n \<and> n \<le> 70 then Some (n - 55)
         else None)"

definition hex4 :: "char \<Rightarrow> char \<Rightarrow> char \<Rightarrow> char \<Rightarrow> nat option" where
  "hex4 h1 h2 h3 h4 =
     (case (hex_value h1, hex_value h2, hex_value h3, hex_value h4) of
        (Some a, Some b, Some c, Some d) \<Rightarrow> Some (((a * 16 + b) * 16 + c) * 16 + d)
      | _ \<Rightarrow> None)"

definition unescape :: "char \<Rightarrow> char option" where
  "unescape e =
     (if e = CHR 0x22 then Some (CHR 0x22)
      else if e = CHR 0x5C then Some (CHR 0x5C)
      else if e = CHR ''/'' then Some (CHR ''/'')
      else if e = CHR ''b'' then Some (CHR 0x08)
      else if e = CHR ''f'' then Some (CHR 0x0C)
      else if e = CHR ''n'' then Some (CHR 0x0A)
      else if e = CHR ''r'' then Some (CHR 0x0D)
      else if e = CHR ''t'' then Some (CHR 0x09)
      else None)"

definition push_char :: "char \<Rightarrow> parse_error + string \<times> string \<Rightarrow> parse_error + string \<times> string" where
  "push_char c r = (case r of Inl e \<Rightarrow> Inl e | Inr (t, rest) \<Rightarrow> Inr (c # t, rest))"

fun parse_string_body :: "string \<Rightarrow> parse_error + string \<times> string" where
  "parse_string_body [] = Inl SyntaxError"
| "parse_string_body (c # cs) =
     (if c = CHR 0x22 then Inr ([], cs)
      else if c = CHR 0x5C then
        (case cs of
           [] \<Rightarrow> Inl SyntaxError
         | e # cs1 \<Rightarrow>
             if e = CHR ''u'' then
               (case cs1 of
                  h1 # h2 # h3 # h4 # cs2 \<Rightarrow>
                    (case hex4 h1 h2 h3 h4 of
                       None \<Rightarrow> Inl SyntaxError
                     | Some cp \<Rightarrow>
                         if cp < 128 then push_char (char_of cp) (parse_string_body cs2)
                         else Inl Unmodelled)
                | _ \<Rightarrow> Inl SyntaxError)
             else (case unescape e of
                     None \<Rightarrow> Inl SyntaxError
                   | Some ch \<Rightarrow> push_char ch (parse_string_body cs1)))
      else if (of_char c :: nat) < 32 then Inl SyntaxError
      else push_char c (parse_string_body cs))"

text \<open>
  A number: an optional minus sign and the digits, with no leading zero.
\<close>

definition digits_value :: "string \<Rightarrow> nat" where
  "digits_value ds = foldl (\<lambda>a c. 10 * a + digit_value c) 0 ds"

definition parse_number :: "string \<Rightarrow> parse_error + json \<times> string" where
  "parse_number t =
     (let negative = (t \<noteq> [] \<and> hd t = CHR ''-'');
          t1 = (if negative then tl t else t);
          ds = takeWhile is_digit t1;
          rest = dropWhile is_digit t1
      in if ds = [] then Inl SyntaxError
         else if 1 < length ds \<and> hd ds = CHR ''0'' then Inl SyntaxError
         else if rest \<noteq> [] \<and> (hd rest = CHR ''.'' \<or> hd rest = CHR ''e'' \<or> hd rest = CHR ''E'')
         then Inl Unmodelled
         else Inr (JNum (if negative then - int (digits_value ds) else int (digits_value ds)), rest))"

text \<open>
  A value; the elements of an array after its opening bracket; the members of an object
  after its opening brace.  White space may stand before and after every token.  A
  repeated name overwrites the earlier member and keeps its place.
\<close>

fun parse_value :: "nat \<Rightarrow> string \<Rightarrow> parse_error + json \<times> string"
  and parse_elements :: "nat \<Rightarrow> json list \<Rightarrow> string \<Rightarrow> parse_error + json \<times> string"
  and parse_members :: "nat \<Rightarrow> (string \<times> json) list \<Rightarrow> string \<Rightarrow> parse_error + json \<times> string" where
  "parse_value 0 t = Inl OutOfFuel"
| "parse_value (Suc n) t =
     (case skip_ws t of
        [] \<Rightarrow> Inl SyntaxError
      | c # cs \<Rightarrow>
          if c = CHR 0x22 then
            (case parse_string_body cs of
               Inl e \<Rightarrow> Inl e
             | Inr (s, rest) \<Rightarrow> Inr (JStr s, rest))
          else if c = CHR ''['' then
            (case skip_ws cs of
               [] \<Rightarrow> Inl SyntaxError
             | d # ds \<Rightarrow> if d = CHR '']'' then Inr (JArr [], ds) else parse_elements n [] cs)
          else if c = CHR ''{'' then
            (case skip_ws cs of
               [] \<Rightarrow> Inl SyntaxError
             | d # ds \<Rightarrow> if d = CHR ''}'' then Inr (JObj [], ds) else parse_members n [] cs)
          else if take 4 (c # cs) = ''true'' then Inr (JBool True, drop 4 (c # cs))
          else if take 5 (c # cs) = ''false'' then Inr (JBool False, drop 5 (c # cs))
          else if take 4 (c # cs) = ''null'' then Inr (JNull, drop 4 (c # cs))
          else if c = CHR ''-'' \<or> is_digit c then parse_number (c # cs)
          else Inl SyntaxError)"
| "parse_elements 0 acc t = Inl OutOfFuel"
| "parse_elements (Suc n) acc t =
     (case parse_value n t of
        Inl e \<Rightarrow> Inl e
      | Inr (v, rest) \<Rightarrow>
          (case skip_ws rest of
             [] \<Rightarrow> Inl SyntaxError
           | d # ds \<Rightarrow>
               if d = CHR '','' then parse_elements n (acc @ [v]) ds
               else if d = CHR '']'' then Inr (JArr (acc @ [v]), ds)
               else Inl SyntaxError))"
| "parse_members 0 acc t = Inl OutOfFuel"
| "parse_members (Suc n) acc t =
     (case skip_ws t of
        [] \<Rightarrow> Inl SyntaxError
      | q # cs \<Rightarrow>
          if q \<noteq> CHR 0x22 then Inl SyntaxError
          else
            (case parse_string_body cs of
               Inl e \<Rightarrow> Inl e
             | Inr (k, rest) \<Rightarrow>
                 (case skip_ws rest of
                    [] \<Rightarrow> Inl SyntaxError
                  | colon # rest1 \<Rightarrow>
                      if colon \<noteq> CHR '':'' then Inl SyntaxError
                      else
                        (case parse_value n rest1 of
                           Inl e \<Rightarrow> Inl e
                         | Inr (v, rest2) \<Rightarrow>
                             (case skip_ws rest2 of
                                [] \<Rightarrow> Inl SyntaxError
                              | d # ds \<Rightarrow>
                                  if d = CHR '','' then parse_members n (assoc_set k v acc) ds
                                  else if d = CHR ''}'' then Inr (JObj (assoc_set k v acc), ds)
                                  else Inl SyntaxError)))))"

text \<open>
  JSON.parse: one value, and nothing but white space after it.  The counter starts at
  twice the length of the text plus one, more than a descent through the text can use.
\<close>

definition JSON_parse :: "string \<Rightarrow> parse_error + json" where
  "JSON_parse text =
     (case parse_value (Suc (2 * length text)) text of
        Inl e \<Rightarrow> Inl e
      | Inr (v, rest) \<Rightarrow> if skip_ws rest = [] then Inr v else Inl SyntaxError)"


section \<open>Fixtures\<close>

text \<open>
  mockCreateSalt is the salt function of the repository's tests: it returns the same
  bytes at every call and touches no random state.
\<close>

definition mockCreateSalt :: "buffer \<Rightarrow> 's \<Rightarrow> buffer \<times> 's" where
  "mockCreateSalt salt s = (salt, s)"

text \<open>
  A small serializer, for running the operations: a string is written as it is and an
  array with commas between its elements.
\<close>

fun toy_stringify :: "json \<Rightarrow> string" where
  "toy_stringify (JStr t) = t"
| "toy_stringify (JArr xs) = join_commas (map toy_stringify xs)"
| "toy_stringify JUndefined = ''undefined''"
| "toy_stringify JNull = ''null''"
| "toy_stringify (JBool b) = (if b then ''true'' else ''false'')"
| "toy_stringify (JNum i) = ''#''"
| "toy_stringify (JObj kvs) = ''{}''"

text \<open>
  A small environment: an encoder that writes one letter per byte, a text encoder that
  changes nothing (so that its decoder is \<open>Some\<close>), two digests known under the names
  SHA256 and SHA512 (the length of the input, once and twice), a random source that
  counts its draws, and the serializer above.
\<close>

definition toy_env :: "nat env" where
  "toy_env =
     \<lparr> base64url = map (\<lambda>b. CHR ''A''),
       base64url_encode = (\<lambda>t. t),
       createHash = (\<lambda>name. if name = ''SHA256'' then Inr (\<lambda>data. [of_nat (length data)])
                            else if name = ''SHA512''
                            then Inr (\<lambda>data. [of_nat (length data), of_nat (length data)])
                            else Inl (CryptoError name)),
       randomBytes = (\<lambda>n s. (replicate n 0, Suc s)),
       JSON_stringify = toy_stringify \<rparr>"

text \<open>A function to compose with: it lifts the empty object, whatever the payload.\<close>

definition lift_empty_object :: "payload \<Rightarrow> 's \<Rightarrow> error + SDObject \<times> 's" where
  "lift_empty_object p s = Inr (SDObject_pure \<lparr>sd_alg = None, sd = None, claims = []\<rparr>, s)"

section \<open>Notions used to state the properties\<close>

text \<open>
  The positions of an array that an index list selects, in ascending order; the first
  \<open>n\<close> salts a salt function draws from a random state, with the state left; and the
  disclosures of the selected elements, the k-th built from the k-th salt; likewise the
  disclosures of a list of claim names, the k-th built from the k-th salt and the value the
  payload holds under the k-th name.
\<close>

definition redacted_positions :: "json list \<Rightarrow> int list \<Rightarrow> nat list" where
  "redacted_positions array indices = filter (\<lambda>i. int i \<in> set indices) [0..<length array]"

fun draw_salts :: "('s \<Rightarrow> buffer \<times> 's) \<Rightarrow> nat \<Rightarrow> 's \<Rightarrow> buffer list \<times> 's" where
  "draw_salts cs 0 s = ([], s)"
| "draw_salts cs (Suc n) s =
     (let (b, s1) = cs s; (bs, s2) = draw_salts cs n s1 in (b # bs, s2))"

definition array_disclosures ::
  "'s env \<Rightarrow> 's RequiredDisclosureOpions \<Rightarrow> json list \<Rightarrow> nat list \<Rightarrow> 's \<Rightarrow> string list" where
  "array_disclosures env opts array ps s =
     map2 (\<lambda>salt i. disclosureForArrayElement env (base64url env salt) (array ! i) (req_stringify opts))
       (fst (draw_salts (req_createSalt opts) (length ps) s)) ps"

definition property_disclosures ::
  "'s env \<Rightarrow> 's RequiredDisclosureOpions \<Rightarrow> payload \<Rightarrow> string list \<Rightarrow> 's \<Rightarrow> string list" where
  "property_disclosures env opts p claimNames s =
     map2 (\<lambda>salt claimName.
             disclosureForObjectProps env (base64url env salt) claimName (payload_get p claimName)
               (req_stringify opts))
       (fst (draw_salts (req_createSalt opts) (length claimNames) s)) claimNames"

text \<open>
  A chain of redactions: calls of SDObject.prop and SDObject.array, each applied to the
  value the one before returned; the first error ends the chain.  \<open>redacted_properties\<close>
  counts the claim names a call of prop redacts, and \<open>names_sd\<close> says whether a call
  names the reserved key \<open>_sd\<close> as a claim.
\<close>

datatype 's redaction =
    Prop "string list" "'s DisclosureOpions"
  | Array string "int list" "'s DisclosureOpions"

fun apply_redaction ::
  "'s env \<Rightarrow> SDObject \<Rightarrow> 's redaction \<Rightarrow> 's \<Rightarrow> error + SDObject \<times> 's" where
  "apply_redaction env v (Prop claimNames options) s = SDObject_prop env v claimNames options s"
| "apply_redaction env v (Array claimName indices options) s =
     SDObject_array env v claimName indices options s"

fun chain :: "'s env \<Rightarrow> SDObject \<Rightarrow> 's redaction list \<Rightarrow> 's \<Rightarrow> error + SDObject \<times> 's" where
  "chain env v [] s = Inr (v, s)"
| "chain env v (c # cs) s =
     (case apply_redaction env v c s of
        Inl e \<Rightarrow> Inl e
      | Inr (v', s') \<Rightarrow> chain env v' cs s')"

fun redacted_properties :: "'s redaction \<Rightarrow> nat" where
  "redacted_properties (Prop claimNames options) = length claimNames"
| "redacted_properties (Array claimName indices options) = 0"

fun names_sd :: "'s redaction \<Rightarrow> bool" where
  "names_sd (Prop claimNames options) = List.member claimNames ''_sd''"
| "names_sd (Array claimName indices options) = (claimName = ''_sd'')"



section \<open>Options resolution\<close>

text \<open>
  C4.  fillSDOptions fails, and then with the inconsistent-algorithm error, exactly when
  the payload and the caller both declare an algorithm and the two differ.  Otherwise it
  returns the payload's algorithm when declared, else the caller's when declared, else
  sha-256.
\<close>

theorem fillSDOptions_algorithm:
  "((\<exists>e. fillSDOptions env p opts = Inl e) \<longleftrightarrow>
      (\<exists>a b. sd_alg p = Some a \<and> hashAlg opts = Some b \<and> a \<noteq> b)) \<and>
   (\<forall>e. fillSDOptions env p opts = Inl e \<longrightarrow> e = InconsistentHashAlg) \<and>
   (\<forall>r. fillSDOptions env p opts = Inr r \<longrightarrow>
      req_hashAlg r =
        (case sd_alg p of
           Some a \<Rightarrow> a
         | None \<Rightarrow> (case hashAlg opts of Some b \<Rightarrow> b | None \<Rightarrow> SHA_256)))"
  by (cases "sd_alg p"; cases "hashAlg opts")
     (auto simp: fillSDOptions_def Let_def SDDefaultHashAlg_def)

theorem fillSDOptions_algorithm_witness:
  "fillSDOptions toy_env \<lparr>sd_alg = Some SHA_512, sd = None, claims = []\<rparr>
      \<lparr>hashAlg = Some SHA_384, createSalt = None, stringify = None\<rparr> = Inl InconsistentHashAlg \<and>
   (\<exists>r. fillSDOptions toy_env \<lparr>sd_alg = None, sd = None, claims = []\<rparr>
      \<lparr>hashAlg = Some SHA_384, createSalt = None, stringify = None\<rparr> = Inr r \<and> req_hashAlg r = SHA_384)"
  using fillSDOptions_algorithm [of toy_env "\<lparr>sd_alg = Some SHA_512, sd = None, claims = []\<rparr>"
          "\<lparr>hashAlg = Some SHA_384, createSalt = None, stringify = None\<rparr>"]
        fillSDOptions_algorithm [of toy_env "\<lparr>sd_alg = None, sd = None, claims = []\<rparr>"
          "\<lparr>hashAlg = Some SHA_384, createSalt = None, stringify = None\<rparr>"]
  by (simp add: fillSDOptions_def)

section \<open>Properties of the array redaction\<close>

lemma draw_salts_length: "length (fst (draw_salts cs n s)) = n"
  by (induction n arbitrary: s) (simp_all add: split_def Let_def)

lemma draw_salts_snoc:
  "draw_salts cs (Suc n) s =
     (let (bs, s1) = draw_salts cs n s; (b, s2) = cs s1 in (bs @ [b], s2))"
proof (induction n arbitrary: s)
  case 0
  show ?case by (simp split: prod.splits)
next
  case (Suc n)
  obtain b s1 where c: "cs s = (b, s1)" by (cases "cs s")
  have "draw_salts cs (Suc (Suc n)) s =
          (let (bs, s2) = draw_salts cs (Suc n) s1 in (b # bs, s2))"
    using c by simp
  also have "\<dots> = (let (bs, s2) = draw_salts cs n s1; (b', s3) = cs s2 in (b # bs @ [b'], s3))"
    by (simp only: Suc.IH) (simp split: prod.splits)
  also have "\<dots> = (let (bs, s2) = draw_salts cs (Suc n) s; (b', s3) = cs s2 in (bs @ [b'], s3))"
    using c by (simp split: prod.splits)
  finally show ?case .
qed

lemma reduce_from_append:
  "reduce_from f (xs @ ys) k acc s =
     (case reduce_from f xs k acc s of
        Inl e \<Rightarrow> Inl e
      | Inr (acc', s') \<Rightarrow> reduce_from f ys (k + length xs) acc' s')"
  by (induction xs arbitrary: k acc s) (auto split: sum.splits)

lemma reduce_from_cong:
  "(\<And>acc e i s. k \<le> i \<Longrightarrow> i < k + length es \<Longrightarrow> f acc e i s = g acc e i s) \<Longrightarrow>
   reduce_from f es k acc s = reduce_from g es k acc s"
proof (induction es arbitrary: k acc s)
  case Nil
  show ?case by simp
next
  case (Cons e es)
  have step: "f acc e k s = g acc e k s"
    by (rule Cons.prems) simp_all
  have rest: "\<And>acc' s'. reduce_from f es (Suc k) acc' s' = reduce_from g es (Suc k) acc' s'"
    by (rule Cons.IH) (simp add: Cons.prems)
  show ?case by (simp add: step rest split: sum.splits)
qed

lemma redacted_positions_snoc:
  "redacted_positions (xs @ [x]) I =
     redacted_positions xs I @ (if int (length xs) \<in> set I then [length xs] else [])"
  by (simp add: redacted_positions_def)

lemma redacted_positions_bound: "i \<in> set (redacted_positions xs I) \<Longrightarrow> i < length xs"
  by (simp add: redacted_positions_def)

lemma redacted_positions_nth_bound:
  "k < length (redacted_positions xs I) \<Longrightarrow> redacted_positions xs I ! k < length xs"
  using redacted_positions_bound nth_mem by blast

lemma array_disclosures_append_elem:
  assumes "\<forall>i \<in> set ps. i < length xs"
  shows "array_disclosures env opts (xs @ [x]) ps s = array_disclosures env opts xs ps s"
  unfolding array_disclosures_def
  by (rule map_cong) (use assms in \<open>auto simp: nth_append dest: set_zip_rightD\<close>)

lemma array_disclosures_snoc:
  "array_disclosures env opts array (ps @ [p]) s =
     array_disclosures env opts array ps s @
       [disclosureForArrayElement env
          (base64url env (fst (req_createSalt opts (snd (draw_salts (req_createSalt opts) (length ps) s)))))
          (array ! p) (req_stringify opts)]"
  unfolding array_disclosures_def
  by (simp add: draw_salts_snoc draw_salts_length split_def Let_def del: draw_salts.simps)

lemma sdArray_callback_selected:
  assumes "\<And>d. hash env d (req_hashAlg opts) = Inr (h d)" and "int index \<in> set I"
  shows "sdArray_callback env I opts acc e index s =
           (let disclosure = disclosureForArrayElement env (base64url env (fst (req_createSalt opts s))) e
                               (req_stringify opts)
            in Inr (\<lparr> res_sdArray = res_sdArray acc @ [arrayElementDigest (base64url env (h disclosure))],
                       res_disclosures = res_disclosures acc @ [disclosure] \<rparr>,
                    snd (req_createSalt opts s)))"
  using assms by (simp add: sdArray_callback_def Let_def split_def)

lemma sdArray_callback_unselected:
  assumes "int index \<notin> set I"
  shows "sdArray_callback env I opts acc e index s =
           Inr (\<lparr> res_sdArray = res_sdArray acc @ [e], res_disclosures = res_disclosures acc \<rparr>, s)"
  using assms by (simp add: sdArray_callback_def)

lemma sdArray_run:
  assumes "redacted_positions array I \<noteq> [] \<Longrightarrow> \<forall>d. hash env d (req_hashAlg opts) = Inr (h d)"
  shows "\<exists>r. reduce_from (sdArray_callback env I opts) array 0
                \<lparr> res_sdArray = [], res_disclosures = [] \<rparr> s =
              Inr (r, snd (draw_salts (req_createSalt opts) (length (redacted_positions array I)) s)) \<and>
            length (res_sdArray r) = length array \<and>
            (\<forall>i<length array. int i \<notin> set I \<longrightarrow> res_sdArray r ! i = array ! i) \<and>
            res_disclosures r = array_disclosures env opts array (redacted_positions array I) s \<and>
            (\<forall>k<length (redacted_positions array I).
               res_sdArray r ! (redacted_positions array I ! k) =
                 arrayElementDigest (base64url env (h (res_disclosures r ! k))))"
  using assms
proof (induction array rule: rev_induct)
  case Nil
  show ?case by (simp add: redacted_positions_def array_disclosures_def)
next
  case (snoc x xs)
  let ?ps = "redacted_positions xs I"
  let ?s1 = "snd (draw_salts (req_createSalt opts) (length ?ps) s)"
  have "?ps \<noteq> [] \<Longrightarrow> \<forall>d. hash env d (req_hashAlg opts) = Inr (h d)"
    using snoc.prems by (simp add: redacted_positions_snoc)
  from snoc.IH [OF this] obtain r where
    run: "reduce_from (sdArray_callback env I opts) xs 0
            \<lparr> res_sdArray = [], res_disclosures = [] \<rparr> s = Inr (r, ?s1)" and
    len: "length (res_sdArray r) = length xs" and
    keep: "\<forall>i<length xs. int i \<notin> set I \<longrightarrow> res_sdArray r ! i = xs ! i" and
    disc: "res_disclosures r = array_disclosures env opts xs ?ps s" and
    mark: "\<forall>k<length ?ps. res_sdArray r ! (?ps ! k) =
             arrayElementDigest (base64url env (h (res_disclosures r ! k)))"
    by blast
  have bound: "\<forall>i \<in> set ?ps. i < length xs"
    by (simp add: redacted_positions_bound)
  have dlen: "length (res_disclosures r) = length ?ps"
    by (simp add: disc array_disclosures_def draw_salts_length)
  show ?case
  proof (cases "int (length xs) \<in> set I")
    case False
    let ?r' = "\<lparr> res_sdArray = res_sdArray r @ [x], res_disclosures = res_disclosures r \<rparr>"
    have ps': "redacted_positions (xs @ [x]) I = ?ps"
      using False by (simp add: redacted_positions_snoc)
    have "reduce_from (sdArray_callback env I opts) (xs @ [x]) 0
            \<lparr> res_sdArray = [], res_disclosures = [] \<rparr> s = Inr (?r', ?s1)"
      using False by (simp add: reduce_from_append run sdArray_callback_unselected)
    moreover have "length (res_sdArray ?r') = length (xs @ [x])"
      by (simp add: len)
    moreover have "\<forall>i<length (xs @ [x]). int i \<notin> set I \<longrightarrow> res_sdArray ?r' ! i = (xs @ [x]) ! i"
      using keep len by (auto simp: nth_append)
    moreover have "res_disclosures ?r' = array_disclosures env opts (xs @ [x]) ?ps s"
      using bound by (simp add: disc array_disclosures_append_elem)
    moreover have "\<forall>k<length ?ps. res_sdArray ?r' ! (?ps ! k) =
                      arrayElementDigest (base64url env (h (res_disclosures ?r' ! k)))"
      using mark len by (auto simp: nth_append redacted_positions_nth_bound)
    ultimately show ?thesis
      unfolding ps' by blast
  next
    case True
    then have hash_ok: "\<And>d. hash env d (req_hashAlg opts) = Inr (h d)"
      using snoc.prems by (simp add: redacted_positions_snoc)
    let ?d = "disclosureForArrayElement env (base64url env (fst (req_createSalt opts ?s1))) x
                (req_stringify opts)"
    let ?r' = "\<lparr> res_sdArray = res_sdArray r @ [arrayElementDigest (base64url env (h ?d))],
                 res_disclosures = res_disclosures r @ [?d] \<rparr>"
    have ps': "redacted_positions (xs @ [x]) I = ?ps @ [length xs]"
      using True by (simp add: redacted_positions_snoc)
    have s': "snd (draw_salts (req_createSalt opts) (length (?ps @ [length xs])) s) =
                snd (req_createSalt opts ?s1)"
      by (simp add: draw_salts_snoc split_def Let_def del: draw_salts.simps)
    have "reduce_from (sdArray_callback env I opts) (xs @ [x]) 0
            \<lparr> res_sdArray = [], res_disclosures = [] \<rparr> s =
          Inr (?r', snd (draw_salts (req_createSalt opts) (length (?ps @ [length xs])) s))"
      unfolding s' using True
      by (simp add: reduce_from_append run sdArray_callback_selected [OF hash_ok] Let_def)
    moreover have "length (res_sdArray ?r') = length (xs @ [x])"
      by (simp add: len)
    moreover have "\<forall>i<length (xs @ [x]). int i \<notin> set I \<longrightarrow> res_sdArray ?r' ! i = (xs @ [x]) ! i"
      using keep len True by (auto simp: nth_append less_Suc_eq)
    moreover have "res_disclosures ?r' = array_disclosures env opts (xs @ [x]) (?ps @ [length xs]) s"
      using bound by (simp add: disc array_disclosures_snoc array_disclosures_append_elem)
    moreover have "\<forall>k<length (?ps @ [length xs]). res_sdArray ?r' ! ((?ps @ [length xs]) ! k) =
                      arrayElementDigest (base64url env (h (res_disclosures ?r' ! k)))"
    proof (intro allI impI)
      fix k assume k: "k < length (?ps @ [length xs])"
      show "res_sdArray ?r' ! ((?ps @ [length xs]) ! k) =
              arrayElementDigest (base64url env (h (res_disclosures ?r' ! k)))"
      proof (cases "k < length ?ps")
        case True
        then show ?thesis
          using mark len dlen by (simp add: nth_append redacted_positions_nth_bound)
      next
        case False
        with k have "k = length ?ps" by simp
        then show ?thesis
          using len dlen by (simp add: nth_append)
      qed
    qed
    ultimately show ?thesis
      unfolding ps' by blast
  qed
qed

lemma sdArray_callback_in_range:
  assumes "index < n"
  shows "sdArray_callback env I opts acc e index s =
         sdArray_callback env (filter (\<lambda>i. 0 \<le> i \<and> i < int n) I) opts acc e index s"
  using assms by (simp add: sdArray_callback_def)

lemma sdArray_ignores_out_of_range:
  "sdArray env array I opts s =
   sdArray env array (filter (\<lambda>i. 0 \<le> i \<and> i < int (length array)) I) opts s"
  unfolding sdArray_def
proof (rule reduce_from_cong)
  fix acc e i s'
  assume "i < 0 + length array"
  then have "i < length array" by simp
  then show "sdArray_callback env I opts acc e i s' =
             sdArray_callback env (filter (\<lambda>i. 0 \<le> i \<and> i < int (length array)) I) opts acc e i s'"
    by (rule sdArray_callback_in_range)
qed

lemma hash_total:
  assumes "translateHashAlg a = Inr name" and "createHash env name = Inr h"
  shows "hash env d a = Inr (h d)"
  using assms by (simp add: hash_def)

lemma hash_dichotomy:
  "(\<exists>h. \<forall>d. hash env d a = Inr (h d)) \<or> (\<exists>e. \<forall>d. hash env d a = Inl e)"
proof (cases "translateHashAlg a")
  case (Inl e)
  then show ?thesis by (simp add: hash_def)
next
  case (Inr name)
  then show ?thesis
    by (cases "createHash env name") (auto simp: hash_def)
qed

lemma sdArray_callback_selected_fails:
  assumes "\<And>d. hash env d (req_hashAlg opts) = Inl err" and "int index \<in> set I"
  shows "sdArray_callback env I opts acc e index s = Inl err"
  using assms by (simp add: sdArray_callback_def Let_def split_def)

lemma sdArray_run_failing:
  assumes hash_fails: "\<And>d. hash env d (req_hashAlg opts) = Inl err"
    and selected: "redacted_positions array I \<noteq> []"
  shows "reduce_from (sdArray_callback env I opts) array 0
           \<lparr> res_sdArray = [], res_disclosures = [] \<rparr> s = Inl err"
  using selected
proof (induction array rule: rev_induct)
  case Nil
  then show ?case by (simp add: redacted_positions_def)
next
  case (snoc x xs)
  show ?case
  proof (cases "redacted_positions xs I = []")
    case False
    then show ?thesis
      by (simp add: reduce_from_append snoc.IH)
  next
    case True
    then have sel: "int (length xs) \<in> set I"
      using snoc.prems by (simp add: redacted_positions_snoc split: if_splits)
    from True have "redacted_positions xs I \<noteq> [] \<Longrightarrow>
                      \<forall>d. hash env d (req_hashAlg opts) = Inr (undefined d)"
      by simp
    from sdArray_run [OF this] obtain r s1 where
      "reduce_from (sdArray_callback env I opts) xs 0
         \<lparr> res_sdArray = [], res_disclosures = [] \<rparr> s = Inr (r, s1)"
      by blast
    then show ?thesis
      using sel by (simp add: reduce_from_append sdArray_callback_selected_fails [OF hash_fails])
  qed
qed

lemma sdArray_success_hash:
  assumes "sdArray env array I opts s = Inr (r, s')"
  shows "\<exists>h. redacted_positions array I \<noteq> [] \<longrightarrow> (\<forall>d. hash env d (req_hashAlg opts) = Inr (h d))"
proof (cases "redacted_positions array I = []")
  case True
  then show ?thesis by simp
next
  case False
  from hash_dichotomy [of env "req_hashAlg opts"] show ?thesis
  proof
    assume "\<exists>h. \<forall>d. hash env d (req_hashAlg opts) = Inr (h d)"
    then show ?thesis by blast
  next
    assume "\<exists>e. \<forall>d. hash env d (req_hashAlg opts) = Inl e"
    then obtain e where "\<And>d. hash env d (req_hashAlg opts) = Inl e" by blast
    from sdArray_run_failing [OF this False] assms show ?thesis
      by (simp add: sdArray_def)
  qed
qed

text \<open>What a successful run of sdArray returned, with no assumption on the digest.\<close>

lemma sdArray_result:
  assumes "sdArray env array I opts s = Inr (r, s')"
  shows "length (res_sdArray r) = length array \<and>
         (\<forall>i<length array. int i \<notin> set I \<longrightarrow> res_sdArray r ! i = array ! i) \<and>
         res_disclosures r = array_disclosures env opts array (redacted_positions array I) s \<and>
         (\<forall>k<length (redacted_positions array I).
            \<exists>digest. res_sdArray r ! (redacted_positions array I ! k) = arrayElementDigest digest)"
proof -
  from sdArray_success_hash [OF assms] obtain h where
    "redacted_positions array I \<noteq> [] \<Longrightarrow> \<forall>d. hash env d (req_hashAlg opts) = Inr (h d)"
    by blast
  from sdArray_run [OF this] obtain r0 where
    run: "reduce_from (sdArray_callback env I opts) array 0
            \<lparr> res_sdArray = [], res_disclosures = [] \<rparr> s =
          Inr (r0, snd (draw_salts (req_createSalt opts) (length (redacted_positions array I)) s))" and
    len: "length (res_sdArray r0) = length array" and
    keep: "\<forall>i<length array. int i \<notin> set I \<longrightarrow> res_sdArray r0 ! i = array ! i" and
    disc: "res_disclosures r0 = array_disclosures env opts array (redacted_positions array I) s" and
    mark: "\<forall>k<length (redacted_positions array I).
             res_sdArray r0 ! (redacted_positions array I ! k) =
               arrayElementDigest (base64url env (h (res_disclosures r0 ! k)))"
    by blast
  from run assms have "r0 = r"
    by (simp add: sdArray_def)
  with len keep disc mark show ?thesis
    by blast
qed

lemma array_disclosures_length: "length (array_disclosures env opts array ps s) = length ps"
  by (simp add: array_disclosures_def draw_salts_length)

lemma sdArray_nothing_selected:
  assumes "redacted_positions array I = []"
  shows "sdArray env array I opts s = Inr (\<lparr> res_sdArray = array, res_disclosures = [] \<rparr>, s)"
proof -
  from assms have "redacted_positions array I \<noteq> [] \<Longrightarrow>
                     \<forall>d. hash env d (req_hashAlg opts) = Inr (undefined d)"
    by simp
  from sdArray_run [OF this] obtain r where
    run: "reduce_from (sdArray_callback env I opts) array 0
            \<lparr> res_sdArray = [], res_disclosures = [] \<rparr> s =
          Inr (r, snd (draw_salts (req_createSalt opts) (length (redacted_positions array I)) s))" and
    len: "length (res_sdArray r) = length array" and
    keep: "\<forall>i<length array. int i \<notin> set I \<longrightarrow> res_sdArray r ! i = array ! i" and
    disc: "res_disclosures r = array_disclosures env opts array (redacted_positions array I) s"
    by blast
  have "\<forall>i<length array. int i \<notin> set I"
    using assms by (auto simp: redacted_positions_def filter_empty_conv)
  with keep len have "res_sdArray r = array"
    by (simp add: nth_equalityI)
  moreover have "res_disclosures r = []"
    by (simp add: disc assms array_disclosures_def)
  ultimately have "r = \<lparr> res_sdArray = array, res_disclosures = [] \<rparr>"
    by simp
  with run show ?thesis
    by (simp add: sdArray_def assms)
qed

text \<open>
  C3, as the code has it.  The claim promises a result for every options record; sdArray
  throws when a position is selected and the digest cannot be computed, which is so for
  the algorithms k12-256 and k12-512.
\<close>

theorem sdArray_unsupported_algorithm_throws:
  "sdArray toy_env [JStr ''DE'', JStr ''FR''] [1]
     \<lparr> req_hashAlg = K12_256, req_createSalt = mockCreateSalt [1, 2], req_stringify = toy_stringify \<rparr> (0::nat) =
   Inl (UnsupportedHashAlg K12_256)"
  by (simp add: sdArray_def sdArray_callback_def hash_def mockCreateSalt_def)

text \<open>
  C3, amended.  When the digest of the chosen algorithm can be computed (translateHashAlg
  gives a name and createHash knows it), sdArray returns a sequence of the length of the
  array in which every position not in the index list holds the original element and the
  k-th selected position, in ascending order, holds the digest marker of the k-th
  disclosure; the k-th disclosure is the one of that element, built with the k-th salt
  drawn.  The selected positions are exactly the in-range members of the index list;
  when there is none, the array is returned as it is, with no disclosure, for every
  options record; and for every options record the outcome is the one of the index list
  without its out-of-range members.
\<close>

theorem sdArray_shape:
  "(translateHashAlg (req_hashAlg opts) = Inr name \<and> createHash env name = Inr h \<longrightarrow>
      (\<exists>r s'. sdArray env array indices opts s = Inr (r, s') \<and>
         length (res_sdArray r) = length array \<and>
         (\<forall>i<length array. int i \<notin> set indices \<longrightarrow> res_sdArray r ! i = array ! i) \<and>
         (\<forall>k<length (redacted_positions array indices).
            res_sdArray r ! (redacted_positions array indices ! k) =
              arrayElementDigest (base64url env (h (res_disclosures r ! k)))) \<and>
         res_disclosures r = array_disclosures env opts array (redacted_positions array indices) s)) \<and>
   set (redacted_positions array indices) = {i. i < length array \<and> int i \<in> set indices} \<and>
   sorted (redacted_positions array indices) \<and>
   distinct (redacted_positions array indices) \<and>
   (redacted_positions array indices = [] \<longrightarrow>
      sdArray env array indices opts s = Inr (\<lparr> res_sdArray = array, res_disclosures = [] \<rparr>, s)) \<and>
   sdArray env array indices opts s =
     sdArray env array (filter (\<lambda>i. 0 \<le> i \<and> i < int (length array)) indices) opts s"
proof (intro conjI impI)
  assume "translateHashAlg (req_hashAlg opts) = Inr name \<and> createHash env name = Inr h"
  then have "redacted_positions array indices \<noteq> [] \<Longrightarrow>
               \<forall>d. hash env d (req_hashAlg opts) = Inr (h d)"
    by (simp add: hash_total)
  from sdArray_run [OF this]
  show "\<exists>r s'. sdArray env array indices opts s = Inr (r, s') \<and>
         length (res_sdArray r) = length array \<and>
         (\<forall>i<length array. int i \<notin> set indices \<longrightarrow> res_sdArray r ! i = array ! i) \<and>
         (\<forall>k<length (redacted_positions array indices).
            res_sdArray r ! (redacted_positions array indices ! k) =
              arrayElementDigest (base64url env (h (res_disclosures r ! k)))) \<and>
         res_disclosures r = array_disclosures env opts array (redacted_positions array indices) s"
    unfolding sdArray_def by blast
next
  show "set (redacted_positions array indices) = {i. i < length array \<and> int i \<in> set indices}"
    by (auto simp: redacted_positions_def)
  show "sorted (redacted_positions array indices)"
    by (simp add: redacted_positions_def sorted_wrt_filter)
  show "distinct (redacted_positions array indices)"
    by (simp add: redacted_positions_def)
  show "sdArray env array indices opts s =
     sdArray env array (filter (\<lambda>i. 0 \<le> i \<and> i < int (length array)) indices) opts s"
    by (rule sdArray_ignores_out_of_range)
next
  assume "redacted_positions array indices = []"
  then show "sdArray env array indices opts s =
               Inr (\<lparr> res_sdArray = array, res_disclosures = [] \<rparr>, s)"
    by (rule sdArray_nothing_selected)
qed

lemma upt_0_2: "[0..<2] = [0, Suc 0]"
  by (simp add: upt_rec numeral_2_eq_2)

theorem sdArray_shape_witness:
  "translateHashAlg SHA_256 = Inr ''SHA256'' \<and>
   createHash toy_env ''SHA256'' = Inr (\<lambda>data. [of_nat (length data)]) \<and>
   sdArray toy_env [JStr ''DE'', JStr ''FR''] [1, 7, - 3]
     \<lparr> req_hashAlg = SHA_256, req_createSalt = mockCreateSalt [1, 2], req_stringify = toy_stringify \<rparr> (0::nat) =
     Inr (\<lparr> res_sdArray = [JStr ''DE'', arrayElementDigest ''A''], res_disclosures = [''AA,FR''] \<rparr>, 0) \<and>
   redacted_positions [JStr ''DE'', JStr ''FR''] [1, 7, - 3] = [1] \<and>
   redacted_positions [JStr ''DE'', JStr ''FR''] [7, - 3] = [] \<and>
   sdArray toy_env [JStr ''DE'', JStr ''FR''] [7, - 3]
     \<lparr> req_hashAlg = K12_256, req_createSalt = mockCreateSalt [1, 2], req_stringify = toy_stringify \<rparr> (0::nat) =
     Inr (\<lparr> res_sdArray = [JStr ''DE'', JStr ''FR''], res_disclosures = [] \<rparr>, 0)"
  using sdArray_shape [of "\<lparr> req_hashAlg = SHA_256, req_createSalt = mockCreateSalt [1, 2], req_stringify = toy_stringify \<rparr>"
          "''SHA256''" toy_env "\<lambda>data. [of_nat (length data)]" "[JStr ''DE'', JStr ''FR'']" "[1, 7, - 3]" "0::nat"]
        sdArray_shape [of "\<lparr> req_hashAlg = K12_256, req_createSalt = mockCreateSalt [1, 2], req_stringify = toy_stringify \<rparr>"
          "''SHA256''" toy_env "\<lambda>data. [of_nat (length data)]" "[JStr ''DE'', JStr ''FR'']" "[7, - 3]" "0::nat"]
  by (simp add: sdArray_def sdArray_callback_def hash_def toy_env_def mockCreateSalt_def
        disclosureForArrayElement_def redacted_positions_def upt_0_2)

section \<open>Properties of the digest\<close>

lemma alg_name_not_prohibited: "alg_name a \<notin> set prohibitedHashAlgorithms"
  by (cases a) (simp_all add: prohibitedHashAlgorithms_def)

lemma hash_error_cases:
  "hash env data a = Inl e \<Longrightarrow>
     e = UnsupportedHashAlg a \<or> (\<exists>name. translateHashAlg a = Inr name \<and> createHash env name = Inl e)"
  by (cases a) (auto simp: hash_def split: sum.splits)

text \<open>
  C8, as the code has it.  A digest requested with the weak algorithm sha-256-32 writes
  no warning: hash does not run the policy check, which would have written one.
\<close>

theorem hash_weak_algorithm_no_warning:
  "hash_console toy_env ''disclosure'' SHA_256_32 = [] \<and>
   requireSecondPreimageResistant (alg_name SHA_256_32) =
     Inr [''A weak hash algorithm is used for disclosure digests.'']"
  by (simp add: hash_console_def requireSecondPreimageResistant_def
        prohibitedHashAlgorithms_def weakHashAlgorithms_def)

text \<open>
  C8, amended.  The policy check requireSecondPreimageResistant fails with the
  prohibited-algorithm error on MD2, MD4, MD5 and SHA-1, writes one warning and no error
  on sha-256-32 and sha-256-64, and is silent on every other name.  A digest request
  (hash) does not run it: no algorithm identifier has a prohibited name, hash writes no
  warning, and the only errors of hash are the unsupported-algorithm error of
  translateHashAlg and the errors of createHash.
\<close>

theorem policy_check_and_hash:
  "(name \<in> set prohibitedHashAlgorithms \<longrightarrow>
      requireSecondPreimageResistant name = Inl ProhibitedHashAlg) \<and>
   (name \<in> set weakHashAlgorithms \<longrightarrow>
      requireSecondPreimageResistant name =
        Inr [''A weak hash algorithm is used for disclosure digests.'']) \<and>
   (name \<notin> set prohibitedHashAlgorithms \<and> name \<notin> set weakHashAlgorithms \<longrightarrow>
      requireSecondPreimageResistant name = Inr []) \<and>
   alg_name a \<notin> set prohibitedHashAlgorithms \<and>
   hash_console env data a = [] \<and>
   (\<forall>e. hash env data a = Inl e \<longrightarrow>
      e = UnsupportedHashAlg a \<or> (\<exists>n. translateHashAlg a = Inr n \<and> createHash env n = Inl e))"
proof (intro conjI)
  show "name \<in> set prohibitedHashAlgorithms \<longrightarrow>
      requireSecondPreimageResistant name = Inl ProhibitedHashAlg"
    by (simp add: requireSecondPreimageResistant_def)
  show "name \<in> set weakHashAlgorithms \<longrightarrow>
      requireSecondPreimageResistant name =
        Inr [''A weak hash algorithm is used for disclosure digests.'']"
    by (auto simp: requireSecondPreimageResistant_def prohibitedHashAlgorithms_def
          weakHashAlgorithms_def)
  show "name \<notin> set prohibitedHashAlgorithms \<and> name \<notin> set weakHashAlgorithms \<longrightarrow>
      requireSecondPreimageResistant name = Inr []"
    by (simp add: requireSecondPreimageResistant_def)
  show "alg_name a \<notin> set prohibitedHashAlgorithms"
    by (rule alg_name_not_prohibited)
  show "hash_console env data a = []"
    by (simp add: hash_console_def)
  show "\<forall>e. hash env data a = Inl e \<longrightarrow>
      e = UnsupportedHashAlg a \<or> (\<exists>n. translateHashAlg a = Inr n \<and> createHash env n = Inl e)"
    using hash_error_cases by blast
qed

theorem policy_check_and_hash_witness:
  "requireSecondPreimageResistant ''MD5'' = Inl ProhibitedHashAlg \<and>
   requireSecondPreimageResistant ''sha-256-64'' =
     Inr [''A weak hash algorithm is used for disclosure digests.''] \<and>
   requireSecondPreimageResistant ''sha-512'' = Inr [] \<and>
   hash toy_env ''abc'' K12_256 = Inl (UnsupportedHashAlg K12_256) \<and>
   hash toy_env ''abc'' SHA_256_64 = Inl (CryptoError ''SHA256-64'')"
  using policy_check_and_hash [of "''MD5''" SHA_256_64 toy_env "''abc''"]
        policy_check_and_hash [of "''sha-256-64''" K12_256 toy_env "''abc''"]
        policy_check_and_hash [of "''sha-512''" K12_256 toy_env "''abc''"]
  by (simp add: prohibitedHashAlgorithms_def weakHashAlgorithms_def hash_def toy_env_def)

text \<open>
  C10, at the failing input.  The identifier sha-384 is translated to the name of the
  SHA3-384 function and sha3-384 to the name of the SHA-384 function, so each is digested
  with the other's function; k12-256 and k12-512 fail with the unsupported-algorithm error.
\<close>

theorem hash_sha_384_uses_sha3_384:
  "translateHashAlg SHA_384 = Inr ''SHA3-384'' \<and>
   translateHashAlg SHA3_384 = Inr ''SHA384'' \<and>
   hash env data SHA_384 =
     (case createHash env ''SHA3-384'' of Inl e \<Rightarrow> Inl e | Inr h \<Rightarrow> Inr (h data)) \<and>
   hash env data SHA3_384 =
     (case createHash env ''SHA384'' of Inl e \<Rightarrow> Inl e | Inr h \<Rightarrow> Inr (h data)) \<and>
   hash env data K12_256 = Inl (UnsupportedHashAlg K12_256) \<and>
   hash env data K12_512 = Inl (UnsupportedHashAlg K12_512)"
  by (simp add: hash_def)

section \<open>Properties of the composition\<close>

text \<open>
  C2, as the code has it.  A value that declares sha-512 composed with one that declares
  nothing fails: the undeclared side counts as sha-256.
\<close>

theorem flatMap_declared_with_undeclared_fails:
  "SDObject_flatMap
     \<lparr> sdObject = \<lparr>sd_alg = Some SHA_512, sd = Some [], claims = []\<rparr>, disclosures = [] \<rparr>
     lift_empty_object (0::nat) =
   Inl InconsistentHashAlg"
  by (simp add: SDObject_flatMap_def lift_empty_object_def SDObject_pure_def SDDefaultHashAlg_def)

text \<open>
  C2, amended.  When the supplied function returns a value, the composition fails with
  the inconsistent-algorithm error exactly when the effective algorithms of the two values
  differ, and succeeds exactly when they are the same; the effective algorithm of a value
  is the one it declares, or sha-256 when it declares none.  So a declared algorithm meets
  an undeclared one without error only when it is sha-256.
\<close>

theorem flatMap_effective_algorithm:
  assumes "f (sdObject self) s = Inr (new, s')"
  shows "(SDObject_flatMap self f s = Inl InconsistentHashAlg \<longleftrightarrow>
            (case sd_alg (sdObject self) of Some a \<Rightarrow> a | None \<Rightarrow> SHA_256) \<noteq>
            (case sd_alg (sdObject new) of Some b \<Rightarrow> b | None \<Rightarrow> SHA_256)) \<and>
         ((\<exists>r. SDObject_flatMap self f s = Inr (r, s')) \<longleftrightarrow>
            (case sd_alg (sdObject self) of Some a \<Rightarrow> a | None \<Rightarrow> SHA_256) =
            (case sd_alg (sdObject new) of Some b \<Rightarrow> b | None \<Rightarrow> SHA_256))"
  using assms
  by (cases "sd_alg (sdObject self)"; cases "sd_alg (sdObject new)")
     (auto simp: SDObject_flatMap_def SDDefaultHashAlg_def Let_def)

theorem flatMap_effective_algorithm_witness:
  "(\<exists>r. SDObject_flatMap
          \<lparr> sdObject = \<lparr>sd_alg = Some SHA_256, sd = Some [JStr ''d0''], claims = []\<rparr>,
            disclosures = [''D0''] \<rparr>
          (\<lambda>p s. Inr (SDObject_pure \<lparr>sd_alg = None, sd = None, claims = []\<rparr>, Suc s)) (0::nat) =
        Inr (r, Suc 0)) \<and>
   SDObject_flatMap
     \<lparr> sdObject = \<lparr>sd_alg = Some SHA_256, sd = Some [JStr ''d0''], claims = []\<rparr>,
       disclosures = [''D0''] \<rparr>
     (\<lambda>p s. Inr (\<lparr> sdObject = \<lparr>sd_alg = Some SHA_384, sd = None, claims = []\<rparr>, disclosures = [] \<rparr>, Suc s))
     (0::nat) = Inl InconsistentHashAlg"
  using flatMap_effective_algorithm
          [of "\<lambda>p s. Inr (SDObject_pure \<lparr>sd_alg = None, sd = None, claims = []\<rparr>, Suc s)"
              "\<lparr> sdObject = \<lparr>sd_alg = Some SHA_256, sd = Some [JStr ''d0''], claims = []\<rparr>,
                 disclosures = [''D0''] \<rparr>"
              "0::nat" "SDObject_pure \<lparr>sd_alg = None, sd = None, claims = []\<rparr>" "Suc 0"]
        flatMap_effective_algorithm
          [of "\<lambda>p s. Inr (\<lparr> sdObject = \<lparr>sd_alg = Some SHA_384, sd = None, claims = []\<rparr>, disclosures = [] \<rparr>, Suc s)"
              "\<lparr> sdObject = \<lparr>sd_alg = Some SHA_256, sd = Some [JStr ''d0''], claims = []\<rparr>,
                 disclosures = [''D0''] \<rparr>"
              "0::nat" "\<lparr> sdObject = \<lparr>sd_alg = Some SHA_384, sd = None, claims = []\<rparr>, disclosures = [] \<rparr>" "Suc 0"]
  by (simp add: SDObject_pure_def)

section \<open>Properties of the property redaction\<close>

lemma prop_disclosures_eq:
  "prop_disclosures env p opts claimNames s =
     (property_disclosures env opts p claimNames s,
      snd (draw_salts (req_createSalt opts) (length claimNames) s))"
  by (induction claimNames arbitrary: s)
     (simp_all add: property_disclosures_def split_def Let_def)

lemma property_disclosures_length:
  "length (property_disclosures env opts p claimNames s) = length claimNames"
  by (simp add: property_disclosures_def draw_salts_length)

lemma prop_digests_result:
  "prop_digests env a ds = Inr sdClaims \<Longrightarrow>
     map snd sdClaims = ds \<and>
     list_all2 (\<lambda>d digest. \<exists>b. hash env d a = Inr b \<and> digest = base64url env b) ds (map fst sdClaims)"
  by (induction ds arbitrary: sdClaims) (auto split: sum.splits)



lemma fold_delete_sd:
  "sd (fold (\<lambda>k p. payload_delete p k) names p) = (if ''_sd'' \<in> set names then None else sd p)"
  by (induction names arbitrary: p) (auto simp: payload_delete_def)



lemma map_of_assoc_set: "map_of (assoc_set k v xs) k' = (if k' = k then Some v else map_of xs k')"
  by (induction xs) auto

lemma SDObject_prop_result:
  assumes "SDObject_prop env self claimNames options s = Inr (r, s')"
  shows "\<exists>opts sdClaims.
           fillSDOptions env (sdObject self) options = Inr opts \<and>
           prop_digests env (req_hashAlg opts)
             (property_disclosures env opts (sdObject self) claimNames s) = Inr sdClaims \<and>
           sdObject r =
             fold (\<lambda>k p. payload_delete p k) claimNames
               ((sdObject self)\<lparr>sd := Some (nullish (sd (sdObject self)) [] @ map JStr (map fst sdClaims)),
                                sd_alg := Some (req_hashAlg opts)\<rparr>) \<and>
           disclosures r = disclosures self @ map snd sdClaims \<and>
           s' = snd (draw_salts (req_createSalt opts) (length claimNames) s)"
  using assms
  by (auto simp: SDObject_prop_def prop_disclosures_eq Let_def split: sum.splits)


lemma SDObject_array_result:
  assumes "SDObject_array env self claimName indices options s = Inr (r, s')"
  shows "\<exists>opts array res.
           fillSDOptions env (sdObject self) options = Inr opts \<and>
           payload_get (sdObject self) claimName = JArr array \<and>
           sdArray env array indices opts s = Inr (res, s') \<and>
           sdObject r = (payload_set_array (sdObject self) claimName (res_sdArray res))
                          \<lparr>sd_alg := hashAlg options\<rparr> \<and>
           disclosures r = disclosures self @ res_disclosures res"
  using assms
  by (auto simp: SDObject_array_def Let_def split: sum.splits json.splits)




section \<open>Properties of the array-property redaction\<close>

lemma prop_accounting:
  assumes "SDObject_prop env self claimNames options s = Inr (r, s')"
    and "''_sd'' \<notin> set claimNames"
  shows "\<exists>newDigests newDisclosures.
           sd (sdObject r) =
             Some ((case sd (sdObject self) of Some ds \<Rightarrow> ds | None \<Rightarrow> []) @ newDigests) \<and>
           disclosures r = disclosures self @ newDisclosures \<and>
           length newDigests = length claimNames \<and>
           length newDisclosures = length claimNames"
proof -
  from SDObject_prop_result [OF assms(1)] obtain opts sdClaims where
    digests: "prop_digests env (req_hashAlg opts)
                (property_disclosures env opts (sdObject self) claimNames s) = Inr sdClaims" and
    obj: "sdObject r =
            fold (\<lambda>k p. payload_delete p k) claimNames
              ((sdObject self)\<lparr>sd := Some (nullish (sd (sdObject self)) [] @ map JStr (map fst sdClaims)),
                               sd_alg := Some (req_hashAlg opts)\<rparr>)" and
    disc: "disclosures r = disclosures self @ map snd sdClaims"
    by blast
  from prop_digests_result [OF digests] have
    "map snd sdClaims = property_disclosures env opts (sdObject self) claimNames s"
    by simp
  then have "length (map snd sdClaims) = length claimNames"
    by (simp only: property_disclosures_length)
  then have len: "length sdClaims = length claimNames"
    by simp
  have "sd (sdObject r) =
          Some ((case sd (sdObject self) of Some ds \<Rightarrow> ds | None \<Rightarrow> []) @
                map JStr (map fst sdClaims))"
    using assms(2) by (cases "sd (sdObject self)") (simp_all add: obj fold_delete_sd)
  with disc len show ?thesis
    by (intro exI [of _ "map JStr (map fst sdClaims)"] exI [of _ "map snd sdClaims"]) simp
qed

lemma payload_get_array_not_alg: "payload_get p k = JArr xs \<Longrightarrow> k \<noteq> ''_sd_alg''"
  by (auto simp: payload_get_def split: option.splits)

lemma array_accounting:
  assumes "SDObject_array env self claimName indices options s = Inr (r, s')"
    and "claimName \<noteq> ''_sd''"
  shows "sd (sdObject r) = sd (sdObject self) \<and>
         (\<exists>array newArray newDisclosures.
            payload_get (sdObject self) claimName = JArr array \<and>
            payload_get (sdObject r) claimName = JArr newArray \<and>
            disclosures r = disclosures self @ newDisclosures \<and>
            length newArray = length array \<and>
            length newDisclosures = length (redacted_positions array indices) \<and>
            (\<forall>k<length (redacted_positions array indices).
               \<exists>digest. newArray ! (redacted_positions array indices ! k) = arrayElementDigest digest))"
proof -
  from SDObject_array_result [OF assms(1)] obtain opts array res where
    get: "payload_get (sdObject self) claimName = JArr array" and
    run: "sdArray env array indices opts s = Inr (res, s')" and
    obj: "sdObject r = (payload_set_array (sdObject self) claimName (res_sdArray res))
                          \<lparr>sd_alg := hashAlg options\<rparr>" and
    disc: "disclosures r = disclosures self @ res_disclosures res"
    by blast
  from get have not_alg: "claimName \<noteq> ''_sd_alg''"
    by (rule payload_get_array_not_alg)
  have sd_same: "sd (sdObject r) = sd (sdObject self)"
    using assms(2) by (simp add: obj payload_set_array_def)
  have get': "payload_get (sdObject r) claimName = JArr (res_sdArray res)"
    using assms(2) not_alg by (simp add: obj payload_set_array_def payload_get_def map_of_assoc_set)
  from sdArray_result [OF run] have
    len: "length (res_sdArray res) = length array" and
    dl: "res_disclosures res = array_disclosures env opts array (redacted_positions array indices) s" and
    mark: "\<forall>k<length (redacted_positions array indices).
             \<exists>digest. res_sdArray res ! (redacted_positions array indices ! k) = arrayElementDigest digest"
    by simp_all
  have "length (res_disclosures res) = length (redacted_positions array indices)"
    by (simp add: dl array_disclosures_length)
  with sd_same get get' disc len mark show ?thesis
    by blast
qed

text \<open>
  C1, at the failing input.  The payload declares sha-512 and the caller passes no
  algorithm: the options resolve to sha-512 and the digest in the marker is the sha-512
  one, but the payload returned has no algorithm identifier, because SDObject.array
  writes the caller's \<open>options.hashAlg\<close> and not the algorithm of the resolved options.
\<close>

theorem array_erases_declared_algorithm:
  "map_sum id req_hashAlg
     (fillSDOptions toy_env
        \<lparr>sd_alg = Some SHA_512, sd = Some [JStr ''AA''],
         claims = [(''nationalities'', JArr [JStr ''US''])]\<rparr>
        \<lparr>hashAlg = None, createSalt = Some (mockCreateSalt [1, 2]), stringify = Some toy_stringify\<rparr>) =
     Inr SHA_512 \<and>
   SDObject_array toy_env
     \<lparr>sdObject = \<lparr>sd_alg = Some SHA_512, sd = Some [JStr ''AA''],
                   claims = [(''nationalities'', JArr [JStr ''US''])]\<rparr>,
      disclosures = [''AA,given_name,John'']\<rparr>
     ''nationalities'' [0]
     \<lparr>hashAlg = None, createSalt = Some (mockCreateSalt [1, 2]), stringify = Some toy_stringify\<rparr> (0::nat) =
   Inr (\<lparr>sdObject = \<lparr>sd_alg = None, sd = Some [JStr ''AA''],
                      claims = [(''nationalities'', JArr [arrayElementDigest ''AA''])]\<rparr>,
         disclosures = [''AA,given_name,John'', ''AA,US'']\<rparr>, 0)"
  by (simp add: SDObject_array_def fillSDOptions_def SDDefaultHashAlg_def
        sdArray_def sdArray_callback_def mockCreateSalt_def hash_def toy_env_def
        disclosureForArrayElement_def payload_get_def payload_set_array_def)

section \<open>Accounting of digests and disclosures\<close>




section \<open>Properties of lifting\<close>

lemma chain_sd_count:
  assumes "chain env v calls s = Inr (v', s')"
    and "\<forall>c \<in> set calls. \<not> names_sd c"
    and "sd (sdObject v) = Some ds"
  shows "\<exists>ds'. sd (sdObject v') = Some ds' \<and>
               length ds' = length ds + sum_list (map redacted_properties calls)"
  using assms
proof (induction calls arbitrary: v s ds)
  case Nil
  then show ?case by simp
next
  case (Cons c cs)
  from Cons.prems(1) obtain v1 s1 where
    step: "apply_redaction env v c s = Inr (v1, s1)" and
    rest: "chain env v1 cs s1 = Inr (v', s')"
    by (auto split: sum.splits)
  have "\<exists>ds1. sd (sdObject v1) = Some ds1 \<and> length ds1 = length ds + redacted_properties c"
  proof (cases c)
    case (Prop claimNames options)
    with step Cons.prems(2) have
      "SDObject_prop env v claimNames options s = Inr (v1, s1)" "''_sd'' \<notin> set claimNames"
      by simp_all
    from prop_accounting [OF this] show ?thesis
      using Cons.prems(3) Prop by auto
  next
    case (Array claimName indices options)
    with step Cons.prems(2) have
      "SDObject_array env v claimName indices options s = Inr (v1, s1)" "claimName \<noteq> ''_sd''"
      by simp_all
    from array_accounting [OF this] show ?thesis
      using Cons.prems(3) Array by simp
  qed
  then obtain ds1 where
    ds1: "sd (sdObject v1) = Some ds1" "length ds1 = length ds + redacted_properties c"
    by blast
  from Cons.prems(2) have "\<forall>c \<in> set cs. \<not> names_sd c"
    by simp
  from Cons.IH [OF rest this ds1(1)] ds1(2) show ?case
    by auto
qed

text \<open>
  C7, as the code has it.  The payload of a lifted object has the digest collection, empty;
  and a call of SDObject.prop with no claim name sets the algorithm identifier although no
  property has been redacted.
\<close>

theorem pure_adds_digest_collection:
  "sd (sdObject (SDObject_pure \<lparr>sd_alg = None, sd = None, claims = [(''sub'', JStr ''user_42'')]\<rparr>)) =
     Some [] \<and>
   SDObject_prop toy_env
     (SDObject_pure \<lparr>sd_alg = None, sd = None, claims = [(''sub'', JStr ''user_42'')]\<rparr>) []
     \<lparr>hashAlg = None, createSalt = None, stringify = None\<rparr> (0::nat) =
   Inr (\<lparr>sdObject = \<lparr>sd_alg = Some SHA_256, sd = Some [], claims = [(''sub'', JStr ''user_42'')]\<rparr>,
         disclosures = []\<rparr>, 0)"
  by (simp add: SDObject_pure_def SDObject_prop_def fillSDOptions_def SDDefaultHashAlg_def)

text \<open>
  C7, amended.  Lifting an object adds the digest collection, empty, and no algorithm
  identifier: the payload has the algorithm identifier of the object, none if the object
  has none, and the claims of the object, and there is no disclosure.  In every value
  built from a lifted object by calls of prop and array that do not name \<open>_sd\<close>, the
  digest collection is present and holds one digest per claim name redacted by prop, so
  it is non-empty only if at least one property has been redacted.
\<close>

theorem reserved_keys_after_pure:
  "sd (sdObject (SDObject_pure object)) = Some [] \<and>
   sd_alg (sdObject (SDObject_pure object)) = sd_alg object \<and>
   claims (sdObject (SDObject_pure object)) = claims object \<and>
   disclosures (SDObject_pure object) = [] \<and>
   (chain env (SDObject_pure object) calls s = Inr (v, s') \<and> (\<forall>c \<in> set calls. \<not> names_sd c) \<longrightarrow>
      (\<exists>digests. sd (sdObject v) = Some digests \<and>
                 length digests = sum_list (map redacted_properties calls)))"
proof (intro conjI impI)
  assume "chain env (SDObject_pure object) calls s = Inr (v, s') \<and> (\<forall>c \<in> set calls. \<not> names_sd c)"
  then have run: "chain env (SDObject_pure object) calls s = Inr (v, s')"
    and ok: "\<forall>c \<in> set calls. \<not> names_sd c"
    by simp_all
  have "sd (sdObject (SDObject_pure object)) = Some []"
    by (simp add: SDObject_pure_def)
  from chain_sd_count [OF run ok this]
  show "\<exists>digests. sd (sdObject v) = Some digests \<and>
                  length digests = sum_list (map redacted_properties calls)"
    by simp
qed (simp_all add: SDObject_pure_def)

theorem reserved_keys_after_pure_witness:
  "chain toy_env
     (SDObject_pure \<lparr>sd_alg = None, sd = None,
        claims = [(''given_name'', JStr ''John''), (''nationalities'', JArr [JStr ''US'', JStr ''DE''])]\<rparr>)
     [Array ''nationalities'' [1]
        \<lparr>hashAlg = None, createSalt = Some (mockCreateSalt [1, 2]), stringify = Some toy_stringify\<rparr>,
      Prop [''given_name'']
        \<lparr>hashAlg = None, createSalt = Some (mockCreateSalt [1, 2]), stringify = Some toy_stringify\<rparr>]
     (0::nat) =
     Inr (\<lparr>sdObject = \<lparr>sd_alg = Some SHA_256, sd = Some [JStr ''A''],
                        claims = [(''nationalities'', JArr [JStr ''US'', arrayElementDigest ''A''])]\<rparr>,
           disclosures = [''AA,DE'', ''AA,given_name,John'']\<rparr>, 0) \<and>
   \<not> names_sd (Array ''nationalities'' [1]
        \<lparr>hashAlg = None, createSalt = Some (mockCreateSalt [1, 2]), stringify = Some toy_stringify\<rparr>
        :: nat redaction) \<and>
   \<not> names_sd (Prop [''given_name'']
        \<lparr>hashAlg = None, createSalt = Some (mockCreateSalt [1, 2]), stringify = Some toy_stringify\<rparr>
        :: nat redaction)"
  using reserved_keys_after_pure [of
     "\<lparr>sd_alg = None, sd = None,
        claims = [(''given_name'', JStr ''John''), (''nationalities'', JArr [JStr ''US'', JStr ''DE''])]\<rparr>"
     toy_env
     "[Array ''nationalities'' [1]
        \<lparr>hashAlg = None, createSalt = Some (mockCreateSalt [1, 2]), stringify = Some toy_stringify\<rparr>,
      Prop [''given_name'']
        \<lparr>hashAlg = None, createSalt = Some (mockCreateSalt [1, 2]), stringify = Some toy_stringify\<rparr>]"
     "0::nat"
     "\<lparr>sdObject = \<lparr>sd_alg = Some SHA_256, sd = Some [JStr ''A''],
                        claims = [(''nationalities'', JArr [JStr ''US'', arrayElementDigest ''A''])]\<rparr>,
           disclosures = [''AA,DE'', ''AA,given_name,John'']\<rparr>" "0::nat"]
  by (simp add: SDObject_prop_def SDObject_array_def SDObject_pure_def fillSDOptions_def
        SDDefaultHashAlg_def sdArray_def sdArray_callback_def mockCreateSalt_def hash_def toy_env_def
        disclosureForObjectProps_def disclosureForArrayElement_def
        payload_get_def payload_delete_def payload_set_array_def)

section \<open>Round trip through JSON.stringify and JSON.parse\<close>














































section \<open>The counter of the parser\<close>

text \<open>
  Every step of the descent consumes at least one character, so a counter of twice the length
  of the text plus one never reaches zero: \<open>JSON_parse\<close> answers a value,
  \<open>SyntaxError\<close> or \<open>Unmodelled\<close>, and never \<open>OutOfFuel\<close>.
\<close>

lemma skip_ws_length: "length (skip_ws t) \<le> length t"
  by (simp add: skip_ws_def length_dropWhile_le)

lemma push_char_rest:
  "push_char c r = Inr (s, rest) \<Longrightarrow> \<exists>s'. r = Inr (s', rest)"
  by (auto simp: push_char_def split: sum.splits)

lemma parse_string_body_rest:
  "parse_string_body t = Inr (s, rest) \<Longrightarrow> length rest < length t"
proof (induction "length t" arbitrary: t s rule: less_induct)
  case less
  show ?case
  proof (cases t)
    case Nil
    with less.prems show ?thesis by simp
  next
    case (Cons c cs)
    note t = Cons
    consider (close) "c = CHR 0x22"
      | (escape) "c \<noteq> CHR 0x22" "c = CHR 0x5C"
      | (plain) "c \<noteq> CHR 0x22" "c \<noteq> CHR 0x5C"
      by blast
    then show ?thesis
    proof cases
      case close
      with less.prems t show ?thesis by simp
    next
      case plain
      with less.prems t obtain s' where "parse_string_body cs = Inr (s', rest)"
        by (auto split: if_splits dest: push_char_rest)
      from less.hyps [OF _ this] t show ?thesis by simp
    next
      case escape
      show ?thesis
      proof (cases cs)
        case Nil
        with less.prems t escape show ?thesis by simp
      next
        case (Cons e cs1)
        note cs = Cons
        show ?thesis
        proof (cases "e = CHR ''u''")
          case False
          with less.prems t escape cs obtain s' where "parse_string_body cs1 = Inr (s', rest)"
            by (auto split: option.splits dest: push_char_rest)
          from less.hyps [OF _ this] t cs show ?thesis by simp
        next
          case True
          with less.prems t escape cs obtain h1 h2 h3 h4 cs2 s' where
            "cs1 = h1 # h2 # h3 # h4 # cs2" "parse_string_body cs2 = Inr (s', rest)"
            by (auto split: list.splits option.splits if_splits dest: push_char_rest)
          from less.hyps [OF _ this(2)] this(1) t cs show ?thesis by simp
        qed
      qed
    qed
  qed
qed

lemma parse_number_rest:
  "parse_number t = Inr (v, rest) \<Longrightarrow> length rest < length t"
proof -
  assume a: "parse_number t = Inr (v, rest)"
  define t1 where "t1 = (if t \<noteq> [] \<and> hd t = CHR ''-'' then tl t else t)"
  from a have ds: "takeWhile is_digit t1 \<noteq> []" and rest: "rest = dropWhile is_digit t1"
    by (auto simp: parse_number_def Let_def t1_def split: if_splits)
  have "length (takeWhile is_digit t1) + length (dropWhile is_digit t1) = length t1"
    by (metis length_append takeWhile_dropWhile_id)
  with ds rest have "length rest < length t1"
    by (cases "takeWhile is_digit t1") auto
  moreover have "length t1 \<le> length t"
    by (simp add: t1_def)
  ultimately show ?thesis by simp
qed


lemma skip_ws_Cons_length: "skip_ws t = c # cs \<Longrightarrow> length cs < length t"
  using skip_ws_length [of t] by simp

lemma parse_value_Suc_cases:
  assumes "parse_value (Suc n) t = Inr (v, rest)"
  obtains (string) c cs s where "skip_ws t = c # cs" "parse_string_body cs = Inr (s, rest)"
    | (empty) c cs d where "skip_ws t = c # cs" "skip_ws cs = d # rest"
    | (elements) c cs where "skip_ws t = c # cs" "parse_elements n [] cs = Inr (v, rest)"
    | (members) c cs where "skip_ws t = c # cs" "parse_members n [] cs = Inr (v, rest)"
    | (literal) k where "0 < k" "k \<le> length (skip_ws t)" "rest = drop k (skip_ws t)"
    | (number) "parse_number (skip_ws t) = Inr (v, rest)"
proof (cases "skip_ws t")
  case Nil
  with assms show ?thesis by simp
next
  case (Cons c cs)
  note s = Cons
  consider (a) "c = CHR 0x22"
    | (b) "c \<noteq> CHR 0x22" "c = CHR ''[''"
    | (c) "c \<noteq> CHR 0x22" "c \<noteq> CHR ''[''" "c = CHR ''{''"
    | (d) "c \<noteq> CHR 0x22" "c \<noteq> CHR ''[''" "c \<noteq> CHR ''{''"
    by blast
  then show ?thesis
  proof cases
    case a
    with assms s obtain str where "parse_string_body cs = Inr (str, rest)"
      by (auto split: sum.splits)
    with s show ?thesis by (rule string)
  next
    case b
    show ?thesis
    proof (cases "skip_ws cs")
      case Nil
      with assms s b show ?thesis by simp
    next
      case (Cons d ds)
      show ?thesis
      proof (cases "d = CHR '']''")
        case True
        with assms s b Cons have "rest = ds" by simp
        with s Cons show ?thesis by (intro empty) simp_all
      next
        case False
        with assms s b Cons have "parse_elements n [] cs = Inr (v, rest)" by simp
        with s show ?thesis by (rule elements)
      qed
    qed
  next
    case c
    show ?thesis
    proof (cases "skip_ws cs")
      case Nil
      with assms s c show ?thesis by simp
    next
      case (Cons d ds)
      show ?thesis
      proof (cases "d = CHR ''}''")
        case True
        with assms s c Cons have "rest = ds" by simp
        with s Cons show ?thesis by (intro empty) simp_all
      next
        case False
        with assms s c Cons have "parse_members n [] cs = Inr (v, rest)" by simp
        with s show ?thesis by (rule members)
      qed
    qed
  next
    case d
    consider (t4) "take 4 (c # cs) = ''true''"
      | (f5) "take 4 (c # cs) \<noteq> ''true''" "take 5 (c # cs) = ''false''"
      | (n4) "take 4 (c # cs) \<noteq> ''true''" "take 5 (c # cs) \<noteq> ''false''" "take 4 (c # cs) = ''null''"
      | (num) "take 4 (c # cs) \<noteq> ''true''" "take 5 (c # cs) \<noteq> ''false''" "take 4 (c # cs) \<noteq> ''null''"
      by blast
    then show ?thesis
    proof cases
      case t4
      then have "length (take 4 (c # cs)) = 4" by simp
      then have "4 \<le> length (skip_ws t)" unfolding s by (simp add: min_def split: if_splits)
      moreover from assms s d t4 have "rest = drop 4 (skip_ws t)" by simp
      ultimately show ?thesis by (intro literal [of 4]) simp_all
    next
      case f5
      then have "length (take 5 (c # cs)) = 5" by simp
      then have "5 \<le> length (skip_ws t)" unfolding s by (simp add: min_def split: if_splits)
      moreover from assms s d f5 have "rest = drop 5 (skip_ws t)" by simp
      ultimately show ?thesis by (intro literal [of 5]) simp_all
    next
      case n4
      then have "length (take 4 (c # cs)) = 4" by simp
      then have "4 \<le> length (skip_ws t)" unfolding s by (simp add: min_def split: if_splits)
      moreover from assms s d n4 have "rest = drop 4 (skip_ws t)" by simp
      ultimately show ?thesis by (intro literal [of 4]) simp_all
    next
      case num
      with assms s d have "parse_number (skip_ws t) = Inr (v, rest)"
        by (simp split: if_splits)
      then show ?thesis by (rule number)
    qed
  qed
qed


lemma parse_elements_Suc_Inr:
  assumes "parse_elements (Suc n) acc t = Inr (v, rest)"
  shows "\<exists>v1 rest1 d ds. parse_value n t = Inr (v1, rest1) \<and> skip_ws rest1 = d # ds \<and>
           (parse_elements n (acc @ [v1]) ds = Inr (v, rest) \<or> rest = ds)"
  using assms by (auto split: sum.splits list.splits if_splits)

lemma parse_members_Suc_Inr:
  assumes "parse_members (Suc n) acc t = Inr (v, rest)"
  shows "\<exists>q cs k rest0 colon rest1 v1 rest2 d ds.
           skip_ws t = q # cs \<and> parse_string_body cs = Inr (k, rest0) \<and>
           skip_ws rest0 = colon # rest1 \<and> parse_value n rest1 = Inr (v1, rest2) \<and>
           skip_ws rest2 = d # ds \<and>
           (parse_members n (assoc_set k v1 acc) ds = Inr (v, rest) \<or> rest = ds)"
  using assms by (auto split: sum.splits list.splits if_splits)

lemma parse_rest:
  "(parse_value n t = Inr (v, rest) \<longrightarrow> length rest < length t) \<and>
   (parse_elements n es t = Inr (v, rest) \<longrightarrow> length rest < length t) \<and>
   (parse_members n ms t = Inr (v, rest) \<longrightarrow> length rest < length t)"
proof (induction n arbitrary: t v rest es ms)
  case 0
  show ?case by simp
next
  case (Suc n)
  have value_rest: "length rest' < length t'" if "parse_value n t' = Inr (v', rest')" for t' v' rest'
    using Suc.IH that by blast
  have elements_rest: "length rest' < length t'" if "parse_elements n es' t' = Inr (v', rest')"
    for t' v' rest' es'
    using Suc.IH that by blast
  have members_rest: "length rest' < length t'" if "parse_members n ms' t' = Inr (v', rest')"
    for t' v' rest' ms'
    using Suc.IH that by blast
  have "length rest < length t" if "parse_value (Suc n) t = Inr (v, rest)"
    using that
  proof (cases rule: parse_value_Suc_cases)
    case (string c cs s)
    from parse_string_body_rest [OF string(2)] skip_ws_Cons_length [OF string(1)]
    show ?thesis by simp
  next
    case (empty c cs d)
    from skip_ws_Cons_length [OF empty(2)] skip_ws_Cons_length [OF empty(1)]
    show ?thesis by simp
  next
    case (elements c cs)
    from elements_rest [OF elements(2)] skip_ws_Cons_length [OF elements(1)]
    show ?thesis by simp
  next
    case (members c cs)
    from members_rest [OF members(2)] skip_ws_Cons_length [OF members(1)]
    show ?thesis by simp
  next
    case (literal k)
    with skip_ws_length [of t] show ?thesis by simp
  next
    case number
    from parse_number_rest [OF number] skip_ws_length [of t] show ?thesis by simp
  qed
  moreover have "length rest < length t" if "parse_elements (Suc n) es t = Inr (v, rest)"
  proof -
    from parse_elements_Suc_Inr [OF that] obtain v1 rest1 d ds where
      first: "parse_value n t = Inr (v1, rest1)" and sep: "skip_ws rest1 = d # ds" and
      more: "parse_elements n (es @ [v1]) ds = Inr (v, rest) \<or> rest = ds"
      by blast
    from value_rest [OF first] skip_ws_Cons_length [OF sep] have "length ds < length t"
      by simp
    with more elements_rest show ?thesis
      by (metis less_trans)
  qed
  moreover have "length rest < length t" if "parse_members (Suc n) ms t = Inr (v, rest)"
  proof -
    from parse_members_Suc_Inr [OF that] obtain q cs k rest0 colon rest1 v1 rest2 d ds where
      s: "skip_ws t = q # cs" and key: "parse_string_body cs = Inr (k, rest0)" and
      col: "skip_ws rest0 = colon # rest1" and val: "parse_value n rest1 = Inr (v1, rest2)" and
      sep: "skip_ws rest2 = d # ds" and
      more: "parse_members n (assoc_set k v1 ms) ds = Inr (v, rest) \<or> rest = ds"
      by blast
    from skip_ws_Cons_length [OF s] parse_string_body_rest [OF key] skip_ws_Cons_length [OF col]
      value_rest [OF val] skip_ws_Cons_length [OF sep]
    have "length ds < length t"
      by simp
    with more members_rest show ?thesis
      by (metis less_trans)
  qed
  ultimately show ?case by blast
qed


lemma push_char_error: "push_char c r = Inl e \<Longrightarrow> r = Inl e"
  by (auto simp: push_char_def split: sum.splits)

lemma parse_string_body_fuel: "parse_string_body t \<noteq> Inl OutOfFuel"
proof (induction "length t" arbitrary: t rule: less_induct)
  case less
  show ?case
  proof
    assume a: "parse_string_body t = Inl OutOfFuel"
    show False
    proof (cases t)
      case Nil
      with a show ?thesis by simp
    next
      case (Cons c cs)
      note t = Cons
      consider (close) "c = CHR 0x22"
        | (escape) "c \<noteq> CHR 0x22" "c = CHR 0x5C"
        | (plain) "c \<noteq> CHR 0x22" "c \<noteq> CHR 0x5C"
        by blast
      then show ?thesis
      proof cases
        case close
        with a t show ?thesis by simp
      next
        case plain
        with a t have "parse_string_body cs = Inl OutOfFuel"
          by (auto split: if_splits dest: push_char_error)
        with less.hyps [of cs] t show ?thesis by simp
      next
        case escape
        show ?thesis
        proof (cases cs)
          case Nil
          with a t escape show ?thesis by simp
        next
          case (Cons e cs1)
          note cs = Cons
          show ?thesis
          proof (cases "e = CHR ''u''")
            case False
            with a t escape cs have "parse_string_body cs1 = Inl OutOfFuel"
              by (auto split: option.splits dest: push_char_error)
            with less.hyps [of cs1] t cs show ?thesis by simp
          next
            case True
            with a t escape cs obtain h1 h2 h3 h4 cs2 where
              "cs1 = h1 # h2 # h3 # h4 # cs2" "parse_string_body cs2 = Inl OutOfFuel"
              by (auto split: list.splits option.splits if_splits dest: push_char_error)
            with less.hyps [of cs2] t cs show ?thesis by simp
          qed
        qed
      qed
    qed
  qed
qed

lemma parse_number_fuel: "parse_number t \<noteq> Inl OutOfFuel"
  by (simp add: parse_number_def Let_def)

lemma parse_value_Suc_OutOfFuel:
  assumes "parse_value (Suc n) t = Inl OutOfFuel"
  shows "\<exists>c cs. skip_ws t = c # cs \<and>
           (parse_elements n [] cs = Inl OutOfFuel \<or> parse_members n [] cs = Inl OutOfFuel)"
  using assms parse_string_body_fuel parse_number_fuel
  by (auto split: sum.splits list.splits if_splits)

lemma parse_elements_Suc_OutOfFuel:
  assumes "parse_elements (Suc n) acc t = Inl OutOfFuel"
  shows "parse_value n t = Inl OutOfFuel \<or>
         (\<exists>v1 rest1 d ds. parse_value n t = Inr (v1, rest1) \<and> skip_ws rest1 = d # ds \<and>
            parse_elements n (acc @ [v1]) ds = Inl OutOfFuel)"
  using assms by (auto split: sum.splits list.splits if_splits)

lemma parse_members_Suc_OutOfFuel:
  assumes "parse_members (Suc n) acc t = Inl OutOfFuel"
  shows "\<exists>q cs k rest0 colon rest1.
           skip_ws t = q # cs \<and> parse_string_body cs = Inr (k, rest0) \<and>
           skip_ws rest0 = colon # rest1 \<and>
           (parse_value n rest1 = Inl OutOfFuel \<or>
            (\<exists>v1 rest2 d ds. parse_value n rest1 = Inr (v1, rest2) \<and> skip_ws rest2 = d # ds \<and>
               parse_members n (assoc_set k v1 acc) ds = Inl OutOfFuel))"
  using assms parse_string_body_fuel
  by (auto split: sum.splits list.splits if_splits)

lemma parse_value_rest: "parse_value n t = Inr (v, rest) \<Longrightarrow> length rest < length t"
  using parse_rest by blast

lemma parse_fuel:
  "(2 * length t < n \<longrightarrow> parse_value n t \<noteq> Inl OutOfFuel) \<and>
   (2 * length t + 1 < n \<longrightarrow> parse_elements n es t \<noteq> Inl OutOfFuel) \<and>
   (2 * length t + 1 < n \<longrightarrow> parse_members n ms t \<noteq> Inl OutOfFuel)"
proof (induction n arbitrary: t es ms)
  case 0
  show ?case by simp
next
  case (Suc n)
  have value_fuel: "parse_value n t' \<noteq> Inl OutOfFuel" if "2 * length t' < n" for t'
    using Suc.IH that by blast
  have elements_fuel: "parse_elements n es' t' \<noteq> Inl OutOfFuel" if "2 * length t' + 1 < n" for t' es'
    using Suc.IH that by blast
  have members_fuel: "parse_members n ms' t' \<noteq> Inl OutOfFuel" if "2 * length t' + 1 < n" for t' ms'
    using Suc.IH that by blast
  have "parse_value (Suc n) t \<noteq> Inl OutOfFuel" if fuel: "2 * length t < Suc n"
  proof
    assume "parse_value (Suc n) t = Inl OutOfFuel"
    from parse_value_Suc_OutOfFuel [OF this] obtain c cs where
      s: "skip_ws t = c # cs" and
      out: "parse_elements n [] cs = Inl OutOfFuel \<or> parse_members n [] cs = Inl OutOfFuel"
      by blast
    from skip_ws_Cons_length [OF s] fuel have "2 * length cs + 1 < n"
      by simp
    with out elements_fuel members_fuel show False
      by blast
  qed
  moreover have "parse_elements (Suc n) es t \<noteq> Inl OutOfFuel" if fuel: "2 * length t + 1 < Suc n"
  proof
    assume "parse_elements (Suc n) es t = Inl OutOfFuel"
    from parse_elements_Suc_OutOfFuel [OF this] fuel value_fuel [of t] obtain v1 rest1 d ds where
      first: "parse_value n t = Inr (v1, rest1)" and sep: "skip_ws rest1 = d # ds" and
      out: "parse_elements n (es @ [v1]) ds = Inl OutOfFuel"
      by auto
    from parse_value_rest [OF first] skip_ws_Cons_length [OF sep] fuel have "2 * length ds + 1 < n"
      by simp
    with out elements_fuel show False
      by blast
  qed
  moreover have "parse_members (Suc n) ms t \<noteq> Inl OutOfFuel" if fuel: "2 * length t + 1 < Suc n"
  proof
    assume "parse_members (Suc n) ms t = Inl OutOfFuel"
    from parse_members_Suc_OutOfFuel [OF this] obtain q cs k rest0 colon rest1 where
      s: "skip_ws t = q # cs" and key: "parse_string_body cs = Inr (k, rest0)" and
      col: "skip_ws rest0 = colon # rest1" and
      out: "parse_value n rest1 = Inl OutOfFuel \<or>
            (\<exists>v1 rest2 d ds. parse_value n rest1 = Inr (v1, rest2) \<and> skip_ws rest2 = d # ds \<and>
               parse_members n (assoc_set k v1 ms) ds = Inl OutOfFuel)"
      by blast
    from skip_ws_Cons_length [OF s] parse_string_body_rest [OF key] skip_ws_Cons_length [OF col]
    have len1: "length rest1 + 3 \<le> length t"
      by simp
    with fuel have "2 * length rest1 < n"
      by simp
    with out value_fuel obtain v1 rest2 d ds where
      val: "parse_value n rest1 = Inr (v1, rest2)" and sep: "skip_ws rest2 = d # ds" and
      out': "parse_members n (assoc_set k v1 ms) ds = Inl OutOfFuel"
      by blast
    from parse_value_rest [OF val] skip_ws_Cons_length [OF sep] len1 fuel have "2 * length ds + 1 < n"
      by simp
    with out' members_fuel show False
      by blast
  qed
  ultimately show ?case by blast
qed

lemma JSON_parse_fuel: "JSON_parse t \<noteq> Inl OutOfFuel"
proof -
  have "parse_value (Suc (2 * length t)) t \<noteq> Inl OutOfFuel"
    using parse_fuel [of t "Suc (2 * length t)"] by simp
  then show ?thesis
    by (auto simp: JSON_parse_def split: sum.splits simp del: parse_value.simps)
qed

section \<open>Round trip of a disclosure\<close>




end
